theory Spec2Isabelle
  imports Main "HOL-Library.Word"
begin

section \<open>Strings of the source language\<close>

text \<open>
  A TypeScript string is a sequence of UTF-16 code units. The regular expressions of the
  source have no \<^verbatim>\<open>u\<close>, \<^verbatim>\<open>m\<close> or \<^verbatim>\<open>s\<close> flag, so they work on code units, \<^verbatim>\<open>^\<close> and
  \<^verbatim>\<open>$\<close> are the two ends of the string, and \<^verbatim>\<open>.\<close> is any code unit but a line terminator.
\<close>

type_synonym jschar = "16 word"
type_synonym jsstring = "jschar list"

text \<open>Source text written as an Isabelle string literal (code units below 256).\<close>

definition js :: "string \<Rightarrow> jsstring" where
  "js s = map of_char s"

definition LF :: jschar where "LF = 0x0A"
definition CR :: jschar where "CR = 0x0D"
definition SP :: jschar where "SP = 0x20"
definition HASH :: jschar where "HASH = 0x23"
definition BT :: jschar where "BT = 0x60"
definition TILDE :: jschar where "TILDE = 0x7E"

text \<open>
  The class \<^verbatim>\<open>\s\<close> of a regular expression, which is also what \<^verbatim>\<open>String.prototype.trim\<close>
  removes: ECMAScript's WhiteSpace (TAB, VT, FF, SP, NBSP, ZWNBSP and the space separators)
  and LineTerminator (LF, CR, LS, PS).
\<close>

definition is_space :: "jschar \<Rightarrow> bool" where
  "is_space c \<longleftrightarrow>
     c = 0x09 \<or> c = 0x0A \<or> c = 0x0B \<or> c = 0x0C \<or> c = 0x0D \<or> c = 0x20 \<or> c = 0xA0 \<or>
     c = 0x1680 \<or> (0x2000 \<le> c \<and> c \<le> 0x200A) \<or> c = 0x2028 \<or> c = 0x2029 \<or>
     c = 0x202F \<or> c = 0x205F \<or> c = 0x3000 \<or> c = 0xFEFF"

text \<open>The code units \<^verbatim>\<open>.\<close> does not match: LF, CR, LS and PS.\<close>

definition is_lt :: "jschar \<Rightarrow> bool" where
  "is_lt c \<longleftrightarrow> c = 0x0A \<or> c = 0x0D \<or> c = 0x2028 \<or> c = 0x2029"

definition dot_star :: "jsstring \<Rightarrow> bool" where
  "dot_star s = list_all (\<lambda>c. \<not> is_lt c) s"

definition all_space :: "jsstring \<Rightarrow> bool" where
  "all_space s = list_all is_space s"

text \<open>\<^verbatim>\<open>s.trim()\<close>\<close>

definition trim :: "jsstring \<Rightarrow> jsstring" where
  "trim s = rev (dropWhile is_space (rev (dropWhile is_space s)))"

text \<open>\<^verbatim>\<open>md.replace(/\r\n?/g, "\n")\<close>: every CR LF pair and every lone CR become one LF.\<close>

fun norm_eol :: "jsstring \<Rightarrow> jsstring" where
  "norm_eol [] = []"
| "norm_eol [c] = (if c = CR then [LF] else [c])"
| "norm_eol (c # d # s) =
     (if c = CR then (if d = LF then LF # norm_eol s else LF # norm_eol (d # s))
      else c # norm_eol (d # s))"

text \<open>\<^verbatim>\<open>s.split("\n")\<close>: never empty; the empty string gives one empty line.\<close>

fun split_nl :: "jsstring \<Rightarrow> jsstring list" where
  "split_nl [] = [[]]"
| "split_nl (c # s) =
     (if c = LF then [] # split_nl s
      else (case split_nl s of [] \<Rightarrow> [[c]] | l # ls \<Rightarrow> (c # l) # ls))"

text \<open>\<^verbatim>\<open>lines.join("\n")\<close>\<close>

fun join_nl :: "jsstring list \<Rightarrow> jsstring" where
  "join_nl [] = []"
| "join_nl [l] = l"
| "join_nl (l # m # ls) = l @ LF # join_nl (m # ls)"

section \<open>Tokens and sections (main.tsx, lines 11-20)\<close>

datatype part =
    Heading nat jsstring
  | Text jsstring
  | Code "jsstring option" jsstring

text \<open>
  The id of a section is the template string \<^verbatim>\<open>seg_${segs.length}_${random}\<close>; the record
  keeps its two varying components.
\<close>

record segment =
  seg_id :: "nat \<times> jsstring"
  heading :: "(nat \<times> jsstring) option"
  parts :: "part list"

section \<open>Text-run normalisation: trimEmptyJoin (main.tsx, lines 309-315)\<close>

text \<open>
  \<^verbatim>\<open>.replace(/^\s*\n+/, "")\<close>. The match starts at index 0. The greedy \<^verbatim>\<open>\s*\<close> first takes the
  whole leading run of white space and gives code units back until a LF follows, so the
  match is the longest prefix of that run which ends with a LF; without a LF in the run
  there is no match and the string is unchanged.
\<close>

definition strip_lead :: "jsstring \<Rightarrow> jsstring" where
  "strip_lead s =
     (let w = takeWhile is_space s;
          m = rev (dropWhile (\<lambda>c. c \<noteq> LF) (rev w))
      in drop (length m) s)"

text \<open>
  \<^verbatim>\<open>.replace(/\n{3,}/g, "\n\n")\<close>. Scanning from the left, a position where three LF start
  matches the whole run of LF from there (the quantifier is greedy), which two LF replace;
  the scan goes on behind the run.
\<close>

function collapse_nl :: "jsstring \<Rightarrow> jsstring" where
  "collapse_nl [] = []"
| "collapse_nl (c # s) =
     (if c = LF \<and> take 2 s = [LF, LF]
      then LF # LF # collapse_nl (dropWhile (\<lambda>d. d = LF) s)
      else c # collapse_nl s)"
  by pat_completeness auto
termination
  by (relation "measure length") (auto simp: length_dropWhile_le less_Suc_eq_le)

text \<open>
  \<^verbatim>\<open>.replace(/\n+\s*$/, "")\<close>. The leftmost match starts at the first LF from which only
  white space follows up to the end of the string; the match then runs to the end.
\<close>

fun strip_tail :: "jsstring \<Rightarrow> jsstring" where
  "strip_tail [] = []"
| "strip_tail (c # s) = (if c = LF \<and> all_space s then [] else c # strip_tail s)"

definition trimEmptyJoin :: "jsstring list \<Rightarrow> jsstring" where
  "trimEmptyJoin ls = strip_tail (collapse_nl (strip_lead (join_nl ls)))"

section \<open>The tokenizer: tokenize (main.tsx, lines 207-267)\<close>

text \<open>
  \<^verbatim>\<open>openFence = /^\s*```(.*)$/\<close>: after the leading white space come three backticks, and
  no line terminator follows them. The result is capture group 1.
\<close>

definition openFence :: "jsstring \<Rightarrow> jsstring option" where
  "openFence line =
     (let r = dropWhile is_space line
      in if take 3 r = [BT, BT, BT] \<and> dot_star (drop 3 r) then Some (drop 3 r) else None)"

text \<open>\<^verbatim>\<open>closeFence = /^\s*```\s*$/\<close>\<close>

definition closeFence :: "jsstring \<Rightarrow> bool" where
  "closeFence line =
     (let r = dropWhile is_space line
      in take 3 r = [BT, BT, BT] \<and> all_space (drop 3 r))"

text \<open>
  \<^verbatim>\<open>headingRe = /^(#{1,6})\s+(.*)$/\<close>: one to six \<^verbatim>\<open>#\<close> (all the leading ones, since white
  space must follow), a run of white space, and a rest without line terminator. The result
  is capture groups 1 and 2.
\<close>

definition headingRe :: "jsstring \<Rightarrow> (jsstring \<times> jsstring) option" where
  "headingRe line =
     (let h = takeWhile (\<lambda>c. c = HASH) line;
          r = dropWhile (\<lambda>c. c = HASH) line;
          t = dropWhile is_space r
      in if 1 \<le> length h \<and> length h \<le> 6 \<and> r \<noteq> [] \<and> is_space (hd r) \<and> dot_star t
         then Some (h, t) else None)"

record tstate =
  out :: "part list"
  buf :: "jsstring list"
  inCode :: bool
  codeLang :: "jsstring option"
  codeBuf :: "jsstring list"

definition flushText :: "tstate \<Rightarrow> tstate" where
  "flushText st =
     (if buf st \<noteq> []
      then (let text = trimEmptyJoin (buf st)
            in (if text \<noteq> [] then st\<lparr>out := out st @ [Text text]\<rparr> else st)\<lparr>buf := []\<rparr>)
      else st)"

text \<open>One pass of the loop over the lines.\<close>

definition tok_line :: "tstate \<Rightarrow> jsstring \<Rightarrow> tstate" where
  "tok_line st line =
     (if \<not> inCode st \<and> openFence line \<noteq> None then
        (let lang = trim (case openFence line of Some g \<Rightarrow> g | None \<Rightarrow> [])
         in (flushText st)\<lparr>inCode := True,
              codeLang := (if lang = [] then None else Some lang), codeBuf := []\<rparr>)
      else if inCode st then
        (if closeFence line
         then st\<lparr>out := out st @ [Code (codeLang st) (join_nl (codeBuf st))],
                 inCode := False, codeLang := None, codeBuf := []\<rparr>
         else st\<lparr>codeBuf := codeBuf st @ [line]\<rparr>)
      else
        (case headingRe line of
           Some (h, t) \<Rightarrow>
             (let st' = flushText st
              in st'\<lparr>out := out st' @ [Heading (length h) (trim t)]\<rparr>)
         | None \<Rightarrow> st\<lparr>buf := buf st @ [line]\<rparr>))"

definition tok_init :: tstate where
  "tok_init = \<lparr>out = [], buf = [], inCode = False, codeLang = None, codeBuf = []\<rparr>"

definition tok_run :: "tstate \<Rightarrow> jsstring list \<Rightarrow> tstate" where
  "tok_run st ls = foldl tok_line st ls"

text \<open>After the loop: the last flush, and the fence still open at the end of the input.\<close>

definition tok_end :: "tstate \<Rightarrow> part list" where
  "tok_end st =
     (let st' = flushText st
      in if inCode st' \<and> codeBuf st' \<noteq> []
         then out st' @ [Text (js ''```'' @ [LF] @ join_nl (codeBuf st'))]
         else out st')"

definition tokenize_lines :: "jsstring list \<Rightarrow> part list" where
  "tokenize_lines ls = tok_end (tok_run tok_init ls)"

definition tokenize :: "jsstring \<Rightarrow> part list" where
  "tokenize md = tokenize_lines (split_nl (norm_eol md))"

section \<open>The segmenter: toSegments (main.tsx, lines 270-289)\<close>

text \<open>
  The loop holds the array \<^verbatim>\<open>segs\<close> and the reference \<^verbatim>\<open>cur\<close> to the object pushed last;
  \<^verbatim>\<open>cur.parts.push(p)\<close> changes that object inside the array. The reference is the index of
  the object in \<^verbatim>\<open>segs\<close>, and \<open>None\<close> is \<^verbatim>\<open>null\<close>. The random suffix of an id is drawn from
  \<open>rnd\<close>: \<open>rnd n\<close> is the suffix drawn when \<^verbatim>\<open>segs.length\<close> is \<open>n\<close>.
\<close>

record sstate =
  segs :: "segment list"
  cur :: "nat option"

definition startSeg :: "(nat \<Rightarrow> jsstring) \<Rightarrow> (nat \<times> jsstring) option \<Rightarrow> sstate \<Rightarrow> sstate" where
  "startSeg rnd h st =
     (let n = length (segs st);
          s = \<lparr>seg_id = (n, rnd n), heading = h,
               parts = (case h of Some (l, t) \<Rightarrow> [Heading l t] | None \<Rightarrow> [])\<rparr>
      in \<lparr>segs = segs st @ [s], cur = Some n\<rparr>)"

text \<open>\<^verbatim>\<open>if (!cur) startSeg(null)\<close>\<close>

definition ensure_cur :: "(nat \<Rightarrow> jsstring) \<Rightarrow> sstate \<Rightarrow> sstate" where
  "ensure_cur rnd st = (if cur st = None then startSeg rnd None st else st)"

text \<open>
  \<^verbatim>\<open>cur!.parts.push(p)\<close>. It follows \<open>ensure_cur\<close>, after which \<^verbatim>\<open>cur\<close> is never \<^verbatim>\<open>null\<close>
  (lemma \<open>cur_ensure_cur\<close>), so the branch \<open>None\<close> is not reached.
\<close>

definition push_part :: "part \<Rightarrow> sstate \<Rightarrow> sstate" where
  "push_part p st =
     (case cur st of
        Some i \<Rightarrow> st\<lparr>segs := (segs st)[i := (segs st ! i)\<lparr>parts := parts (segs st ! i) @ [p]\<rparr>]\<rparr>
      | None \<Rightarrow> st)"

text \<open>\<^verbatim>\<open>p.type === "heading" && p.level <= depth\<close>\<close>

fun is_boundary :: "nat \<Rightarrow> part \<Rightarrow> bool" where
  "is_boundary depth (Heading l t) = (l \<le> depth)"
| "is_boundary depth (Text t) = False"
| "is_boundary depth (Code g c) = False"

fun seg_step :: "(nat \<Rightarrow> jsstring) \<Rightarrow> nat \<Rightarrow> sstate \<Rightarrow> part \<Rightarrow> sstate" where
  "seg_step rnd depth st (Heading l t) =
     (if l \<le> depth then startSeg rnd (Some (l, t)) st
      else push_part (Heading l t) (ensure_cur rnd st))"
| "seg_step rnd depth st (Text t) = push_part (Text t) (ensure_cur rnd st)"
| "seg_step rnd depth st (Code g c) = push_part (Code g c) (ensure_cur rnd st)"

definition seg_init :: sstate where
  "seg_init = \<lparr>segs = [], cur = None\<rparr>"

definition seg_run :: "(nat \<Rightarrow> jsstring) \<Rightarrow> nat \<Rightarrow> part list \<Rightarrow> sstate" where
  "seg_run rnd depth ps = foldl (seg_step rnd depth) seg_init ps"

definition toSegments :: "(nat \<Rightarrow> jsstring) \<Rightarrow> part list \<Rightarrow> nat \<Rightarrow> segment list" where
  "toSegments rnd ps depth = filter (\<lambda>s. 0 < length (parts s)) (segs (seg_run rnd depth ps))"

text \<open>The invariant of the loop: \<^verbatim>\<open>cur\<close> refers to the last element of \<^verbatim>\<open>segs\<close>.\<close>

definition cur_last :: "sstate \<Rightarrow> bool" where
  "cur_last st \<longleftrightarrow> cur st = (if segs st = [] then None else Some (length (segs st) - 1))"

text \<open>The boundary headings of a token sequence, in order (used to state what the sections are).\<close>

fun boundary_headings :: "nat \<Rightarrow> part list \<Rightarrow> (nat \<times> jsstring) list" where
  "boundary_headings d [] = []"
| "boundary_headings d (Heading l t # ps) =
     (if l \<le> d then (l, t) # boundary_headings d ps else boundary_headings d ps)"
| "boundary_headings d (Text t # ps) = boundary_headings d ps"
| "boundary_headings d (Code g c # ps) = boundary_headings d ps"

section \<open>The serializer: segmentToMarkdown (main.tsx, lines 292-307)\<close>

text \<open>\<^verbatim>\<open>"#".repeat(level) + " " + text\<close>\<close>

definition heading_line :: "nat \<Rightarrow> jsstring \<Rightarrow> jsstring" where
  "heading_line l t = replicate l HASH @ [SP] @ t"

fun part_lines :: "part \<Rightarrow> jsstring list" where
  "part_lines (Text t) = [t]"
| "part_lines (Heading l t) = [heading_line l t]"
| "part_lines (Code g c) = [[BT, BT, BT] @ (case g of Some lang \<Rightarrow> lang | None \<Rightarrow> []), c, [BT, BT, BT]]"

definition segmentToMarkdown :: "segment \<Rightarrow> jsstring" where
  "segmentToMarkdown seg =
     trim (join_nl ((case heading seg of Some (l, t) \<Rightarrow> [heading_line l t] | None \<Rightarrow> [])
                    @ concat (map part_lines (parts seg))))"

section \<open>The line splitter: splitMarkdownByHeading (part 000, lines 262-287)\<close>

record chunk =
  chunk_id :: nat
  markdown :: jsstring

record hstate =
  chunks :: "chunk list"
  hbuf :: "jsstring list"
  inFence :: bool
  fenceChar :: "jschar option"
  next_id :: nat

text \<open>\<^verbatim>\<open>/^```/.test(s)\<close> and \<^verbatim>\<open>/^~~~/.test(s)\<close>, for the marker \<open>c\<close>.\<close>

definition starts3 :: "jschar \<Rightarrow> jsstring \<Rightarrow> bool" where
  "starts3 c s = (take 3 s = [c, c, c])"

text \<open>
  \<^verbatim>\<open>s.match(/^(#{1,6})\s+.+/)\<close>, the result being the length of group 1: one to six \<^verbatim>\<open>#\<close>,
  then some white space after which a code unit that is no line terminator follows. The
  white space taken by \<^verbatim>\<open>\s+\<close> is either the whole run (and the next code unit, which is no
  white space, is matched by \<^verbatim>\<open>.+\<close>) or a shorter part of it (and \<^verbatim>\<open>.+\<close> starts inside the run).
\<close>

definition heading_level :: "jsstring \<Rightarrow> nat option" where
  "heading_level s =
     (let h = takeWhile (\<lambda>c. c = HASH) s;
          r = dropWhile (\<lambda>c. c = HASH) s;
          w = takeWhile is_space r
      in if 1 \<le> length h \<and> length h \<le> 6 \<and> w \<noteq> []
            \<and> (length w < length r \<or> \<not> list_all is_lt (tl w))
         then Some (length h) else None)"

definition push_chunk :: "hstate \<Rightarrow> hstate" where
  "push_chunk st =
     (let text = trim (join_nl (hbuf st))
      in (if text \<noteq> []
          then st\<lparr>chunks := chunks st @ [\<lparr>chunk_id = next_id st, markdown = text\<rparr>],
                  next_id := Suc (next_id st)\<rparr>
          else st)\<lparr>hbuf := []\<rparr>)"

definition split_line :: "nat \<Rightarrow> hstate \<Rightarrow> jsstring \<Rightarrow> hstate" where
  "split_line level st line =
     (let trimmed = trim line in
      if starts3 BT trimmed \<or> starts3 TILDE trimmed then
        (let opener = (if starts3 BT trimmed then BT else TILDE);
             st' = (if \<not> inFence st then st\<lparr>inFence := True, fenceChar := Some opener\<rparr>
                    else if fenceChar st \<noteq> None
                            \<and> (fenceChar st = Some BT \<and> starts3 BT trimmed
                               \<or> fenceChar st = Some TILDE \<and> starts3 TILDE trimmed)
                    then st\<lparr>inFence := False, fenceChar := None\<rparr>
                    else st)
         in st'\<lparr>hbuf := hbuf st' @ [line]\<rparr>)
      else if \<not> inFence st \<and> (case heading_level trimmed of Some h \<Rightarrow> h \<le> level | None \<Rightarrow> False) then
        (let st' = (if hbuf st \<noteq> [] then push_chunk st else st)
         in st'\<lparr>hbuf := hbuf st' @ [line]\<rparr>)
      else st\<lparr>hbuf := hbuf st @ [line]\<rparr>)"

definition splitMarkdownByHeading :: "jsstring \<Rightarrow> nat \<Rightarrow> chunk list" where
  "splitMarkdownByHeading src level =
     (let st = foldl (split_line level)
                 \<lparr>chunks = [], hbuf = [], inFence = False, fenceChar = None, next_id = 1\<rparr>
                 (split_nl (norm_eol src))
      in chunks (if hbuf st \<noteq> [] then push_chunk st else st))"

section \<open>The copy protocol: smartCopy, copyWithExecCommand, and copyText of main.tsx\<close>

text \<open>
  What the platform does during one call. Every call into the browser either returns or
  throws; \<^verbatim>\<open>navigator.clipboard.writeText\<close> resolves or rejects; \<^verbatim>\<open>document.execCommand\<close> may
  be missing, return a flag, or throw.
\<close>

datatype exec_behaviour = ExecAbsent | ExecReturns bool | ExecThrows

record platform =
  clipboard_present :: bool
  secure_context :: bool
  writeText_resolves :: bool
  createElement_throws :: bool
  appendChild_throws :: bool
  select_throws :: bool
  execCommand :: exec_behaviour
  removeChild_throws :: bool

text \<open>
  The tiers a call attempted, in order: the call of \<^verbatim>\<open>writeText\<close>, the entry into the
  exec-command fallback, and the call of the manual-required callback (which is taken to
  return normally, as the callers' callbacks do).
\<close>

datatype call = WriteText jsstring | LegacyCopy jsstring | RequestManual jsstring

text \<open>
  The document: the text areas attached to \<^verbatim>\<open>document.body\<close>, each an identity and its
  \<^verbatim>\<open>value\<close>; the next fresh identity; and the log of attempted tiers.
\<close>

record world =
  children :: "(nat \<times> jsstring) list"
  fresh :: nat
  calls :: "call list"

datatype outcome = ClipboardApi | LegacyExec | ManualRequired

text \<open>
  part 000, lines 216-232. A throw anywhere in the \<^verbatim>\<open>try\<close> block ends it at once: the
  \<^verbatim>\<open>catch\<close> block warns and returns \<^verbatim>\<open>false\<close>.
\<close>

definition copyWithExecCommand :: "platform \<Rightarrow> jsstring \<Rightarrow> world \<Rightarrow> bool \<times> world" where
  "copyWithExecCommand p text w =
     (let w0 = w\<lparr>calls := calls w @ [LegacyCopy text]\<rparr> in
      if createElement_throws p then (False, w0)
      else
        (let ta = (fresh w0, text);
             w1 = w0\<lparr>fresh := Suc (fresh w0)\<rparr> in
         if appendChild_throws p then (False, w1)
         else
           (let w2 = w1\<lparr>children := children w1 @ [ta]\<rparr> in
            if select_throws p then (False, w2)
            else
              (case execCommand p of
                 ExecThrows \<Rightarrow> (False, w2)
               | ExecAbsent \<Rightarrow>
                   (if removeChild_throws p then (False, w2)
                    else (False, w2\<lparr>children := remove1 ta (children w2)\<rparr>))
               | ExecReturns ok \<Rightarrow>
                   (if removeChild_throws p then (False, w2)
                    else (ok, w2\<lparr>children := remove1 ta (children w2)\<rparr>))))))"

text \<open>
  part 000, lines 202-214. The \<^verbatim>\<open>try\<close> block either returns \<^verbatim>\<open>'clipboard'\<close> or throws (a
  rejected write, or the explicit \<^verbatim>\<open>NoAsyncClipboard\<close>); the \<^verbatim>\<open>catch\<close> block runs the two
  other tiers.
\<close>

definition smartCopy :: "platform \<Rightarrow> jsstring \<Rightarrow> world \<Rightarrow> outcome \<times> world" where
  "smartCopy p text w =
     (let native = clipboard_present p \<and> secure_context p;
          w1 = (if native then w\<lparr>calls := calls w @ [WriteText text]\<rparr> else w) in
      if native \<and> writeText_resolves p then (ClipboardApi, w1)
      else
        (case copyWithExecCommand p text w1 of
           (True, w2) \<Rightarrow> (LegacyExec, w2)
         | (False, w2) \<Rightarrow> (ManualRequired, w2\<lparr>calls := calls w2 @ [RequestManual text]\<rparr>)))"

text \<open>
  main.tsx, lines 69-82. There is no \<^verbatim>\<open>try\<close> inside the \<^verbatim>\<open>catch\<close> block, so a throw there
  leaves the function: the result \<open>None\<close> is the rejected promise. A missing
  \<^verbatim>\<open>navigator.clipboard\<close> throws inside the \<^verbatim>\<open>try\<close> block, and calling a missing
  \<^verbatim>\<open>document.execCommand\<close> throws as well.
\<close>

definition copyText :: "platform \<Rightarrow> jsstring \<Rightarrow> world \<Rightarrow> bool option \<times> world" where
  "copyText p text w =
     (let w1 = (if clipboard_present p then w\<lparr>calls := calls w @ [WriteText text]\<rparr> else w) in
      if clipboard_present p \<and> writeText_resolves p then (Some True, w1)
      else
        (let w0 = w1\<lparr>calls := calls w1 @ [LegacyCopy text]\<rparr> in
         if createElement_throws p then (None, w0)
         else
           (let ta = (fresh w0, text);
                w2 = w0\<lparr>fresh := Suc (fresh w0)\<rparr> in
            if appendChild_throws p then (None, w2)
            else
              (let w3 = w2\<lparr>children := children w2 @ [ta]\<rparr> in
               if select_throws p then (None, w3)
               else
                 (case execCommand p of
                    ExecThrows \<Rightarrow> (None, w3)
                  | ExecAbsent \<Rightarrow> (None, w3)
                  | ExecReturns ok \<Rightarrow>
                      (if removeChild_throws p then (None, w3)
                       else (Some ok, w3\<lparr>children := remove1 ta (children w3)\<rparr>)))))))"

section \<open>Concrete inputs used below\<close>

definition rnd0 :: "nat \<Rightarrow> jsstring" where
  "rnd0 n = js ''k3x9q''"

definition platform_exec_throws :: platform where
  "platform_exec_throws =
     \<lparr>clipboard_present = False, secure_context = False, writeText_resolves = False,
      createElement_throws = False, appendChild_throws = False, select_throws = False,
      execCommand = ExecThrows, removeChild_throws = False\<rparr>"

definition platform_exec_denied :: platform where
  "platform_exec_denied =
     \<lparr>clipboard_present = True, secure_context = True, writeText_resolves = False,
      createElement_throws = False, appendChild_throws = False, select_throws = False,
      execCommand = ExecReturns False, removeChild_throws = False\<rparr>"

definition world0 :: world where
  "world0 = \<lparr>children = [], fresh = 0, calls = []\<rparr>"

section \<open>Evaluation\<close>

lemmas tok_defs = tokenize_def tokenize_lines_def tok_run_def tok_end_def tok_line_def tok_init_def
  openFence_def closeFence_def headingRe_def flushText_def trimEmptyJoin_def strip_lead_def
  is_space_def is_lt_def dot_star_def all_space_def trim_def js_def
  LF_def CR_def BT_def HASH_def SP_def TILDE_def Let_def collapse_nl.simps

lemmas seg_defs = toSegments_def seg_run_def seg_init_def startSeg_def ensure_cur_def push_part_def

section \<open>The serializer writes the heading twice\<close>

text \<open>
  Claim C1 (round trip of the serializer). A section with a heading keeps the heading in
  its \<open>heading\<close> field and as the first of its \<open>parts\<close>; \<open>segmentToMarkdown\<close> writes a line for
  each of the two. For the input \<^verbatim>\<open># A\<close>, \<^verbatim>\<open>x\<close> at depth 1 the pipeline gives one section, its
  serialization has the heading line twice, and tokenizing and segmenting that text at
  depth 1 gives two sections, the first holding the heading alone: the round trip does not
  return the section it started from.
\<close>

theorem roundtrip_heading_twice:
  "toSegments rnd (tokenize (js ''# A\<newline>x'')) 1 =
     [\<lparr>seg_id = (0, rnd 0), heading = Some (1, js ''A''),
       parts = [Heading 1 (js ''A''), Text (js ''x'')]\<rparr>]
   \<and> segmentToMarkdown \<lparr>seg_id = (0, rnd 0), heading = Some (1, js ''A''),
       parts = [Heading 1 (js ''A''), Text (js ''x'')]\<rparr> = js ''# A\<newline># A\<newline>x''
   \<and> toSegments rnd' (tokenize (js ''# A\<newline># A\<newline>x'')) 1 =
     [\<lparr>seg_id = (0, rnd' 0), heading = Some (1, js ''A''), parts = [Heading 1 (js ''A'')]\<rparr>,
      \<lparr>seg_id = (1, rnd' 1), heading = Some (1, js ''A''),
       parts = [Heading 1 (js ''A''), Text (js ''x'')]\<rparr>]"
  by (simp add: tok_defs seg_defs segmentToMarkdown_def heading_line_def)

section \<open>The tokenizer\<close>

lemma not_space_BT [simp]: "\<not> is_space BT" by (simp add: is_space_def BT_def)
lemma not_space_HASH [simp]: "\<not> is_space HASH" by (simp add: is_space_def HASH_def)
lemma not_space_TILDE [simp]: "\<not> is_space TILDE" by (simp add: is_space_def TILDE_def)
lemma is_space_LF [simp]: "is_space LF" by (simp add: is_space_def LF_def)
lemma is_space_SP [simp]: "is_space SP" by (simp add: is_space_def SP_def)
lemma is_lt_LF [simp]: "is_lt LF" by (simp add: is_lt_def LF_def)
lemma marker_neq [simp]:
  "BT \<noteq> HASH" "HASH \<noteq> BT" "TILDE \<noteq> BT" "BT \<noteq> TILDE" "TILDE \<noteq> HASH" "HASH \<noteq> TILDE"
  "BT \<noteq> LF" "HASH \<noteq> LF" "TILDE \<noteq> LF" "LF \<noteq> BT" "LF \<noteq> HASH" "LF \<noteq> TILDE"
  by (simp_all add: BT_def HASH_def TILDE_def LF_def)

lemma tok_run_Nil [simp]: "tok_run st [] = st"
  by (simp add: tok_run_def)

lemma tok_run_Cons [simp]: "tok_run st (l # ls) = tok_run (tok_line st l) ls"
  by (simp add: tok_run_def)

lemma tok_run_append: "tok_run st (ls @ ms) = tok_run (tok_run st ls) ms"
  by (simp add: tok_run_def)

text \<open>Tokens already emitted are never touched again.\<close>

lemma flushText_out_prefix:
  "flushText (st\<lparr>out := pre @ out st\<rparr>) = (flushText st)\<lparr>out := pre @ out (flushText st)\<rparr>"
  by (simp add: flushText_def Let_def)




lemma tok_line_open:
  "\<not> inCode st \<Longrightarrow> openFence l = Some g \<Longrightarrow>
     tok_line st l = (flushText st)\<lparr>inCode := True,
        codeLang := (if trim g = [] then None else Some (trim g)), codeBuf := []\<rparr>"
  by (simp add: tok_line_def Let_def)

lemma tok_line_inside:
  "inCode st \<Longrightarrow> \<not> closeFence l \<Longrightarrow> tok_line st l = st\<lparr>codeBuf := codeBuf st @ [l]\<rparr>"
  by (simp add: tok_line_def)


lemma tok_run_inside:
  "inCode st \<Longrightarrow> \<forall>b\<in>set body. \<not> closeFence b \<Longrightarrow>
     tok_run st body = st\<lparr>codeBuf := codeBuf st @ body\<rparr>"
proof (induction body arbitrary: st)
  case Nil
  show ?case by simp
next
  case (Cons b body)
  then show ?case by (simp add: tok_line_inside)
qed

lemma flushText_fields [simp]:
  "buf (flushText st) = []" "inCode (flushText st) = inCode st"
  "codeLang (flushText st) = codeLang st" "codeBuf (flushText st) = codeBuf st"
  by (simp_all add: flushText_def Let_def)

lemma flushText_no_buf: "buf st = [] \<Longrightarrow> flushText st = st"
  by (simp add: flushText_def)

lemma flushText_idem [simp]: "flushText (flushText st) = flushText st"
  by (simp add: flushText_def Let_def)

lemma tok_end_outside: "\<not> inCode st \<Longrightarrow> tok_end st = out (flushText st)"
  by (simp add: tok_end_def Let_def)





lemma tokenize_lines_unterminated:
  assumes "\<not> inCode (tok_run tok_init pre)" and "openFence l = Some g"
    and "\<forall>b\<in>set body. \<not> closeFence b"
  shows "tokenize_lines (pre @ l # body) =
           tokenize_lines pre
           @ (if body = [] then [] else [Text (js ''```'' @ [LF] @ join_nl body)])"
proof -
  let ?st = "tok_run tok_init pre"
  let ?s1 = "(flushText ?st)\<lparr>inCode := True,
        codeLang := (if trim g = [] then None else Some (trim g)), codeBuf := []\<rparr>"
  have 1: "tok_line ?st l = ?s1" using assms(1,2) by (rule tok_line_open)
  have 2: "tok_run ?s1 body = ?s1\<lparr>codeBuf := codeBuf ?s1 @ body\<rparr>"
    using assms(3) by (intro tok_run_inside) simp_all
  have 3: "tok_run tok_init (pre @ l # body) = ?s1\<lparr>codeBuf := body\<rparr>"
    by (simp add: tok_run_append 1 2)
  have 4: "flushText (?s1\<lparr>codeBuf := body\<rparr>) = ?s1\<lparr>codeBuf := body\<rparr>"
    by (rule flushText_no_buf) simp
  have "tok_end (?s1\<lparr>codeBuf := body\<rparr>) =
      out (flushText ?st) @ (if body = [] then [] else [Text (js ''```'' @ [LF] @ join_nl body)])"
    unfolding tok_end_def 4 by (simp add: Let_def)
  moreover have "tok_end ?st = out (flushText ?st)"
    using assms(1) by (rule tok_end_outside)
  ultimately show ?thesis
    by (simp only: tokenize_lines_def 3)
qed

text \<open>
  Claim C2 (unterminated fence), as amended. When the input ends inside a fence that was
  opened by the line \<open>l\<close> and has the body lines \<open>body\<close>, the tokens are those of the lines
  before \<open>l\<close>, followed, if the body is not empty, by one \<open>Text\<close> token: a line of three
  backticks and the body lines. The opening line itself is not kept (its language tag and
  indentation are gone), and with an empty body no token is emitted for the fence.
\<close>

theorem unterminated_fence:
  assumes "split_nl (norm_eol md) = pre @ l # body"
    and "\<not> inCode (tok_run tok_init pre)" and "openFence l = Some g"
    and "\<forall>b\<in>set body. \<not> closeFence b"
  shows "tokenize md =
           tokenize_lines pre
           @ (if body = [] then [] else [Text (js ''```'' @ [LF] @ join_nl body)])"
  using tokenize_lines_unterminated[OF assms(2-4)] assms(1)
  by (simp add: tokenize_def)

theorem unterminated_fence_witness:
  "split_nl (norm_eol (js ''# T\<newline>```js\<newline>console.log(1)'')) =
     [js ''# T''] @ js ''```js'' # [js ''console.log(1)'']
   \<and> \<not> inCode (tok_run tok_init [js ''# T''])
   \<and> openFence (js ''```js'') = Some (js ''js'')
   \<and> \<not> closeFence (js ''console.log(1)'')
   \<and> tokenize (js ''# T\<newline>```js\<newline>console.log(1)'') =
       [Heading 1 (js ''T''), Text (js ''```\<newline>console.log(1)'')]"
  using unterminated_fence [of "js ''# T\<newline>```js\<newline>console.log(1)''"
      "[js ''# T'']" "js ''```js''" "[js ''console.log(1)'']" "js ''js''"]
  by (simp add: tok_defs Let_def)

text \<open>
  Claim C2 as stated says that the \<open>Text\<close> token of the example holds the literal fence line,
  which is \<^verbatim>\<open>```js\<close>, and that the marker and body are always emitted again. The token holds
  a bare \<^verbatim>\<open>```\<close> line instead, and for a fence without body lines nothing is emitted.
\<close>

theorem unterminated_fence_loses_tag:
  "tokenize (js ''# T\<newline>```js\<newline>console.log(1)'') =
     [Heading 1 (js ''T''), Text (js ''```\<newline>console.log(1)'')]
   \<and> tokenize (js ''# T\<newline>```js\<newline>console.log(1)'') \<noteq>
     [Heading 1 (js ''T''), Text (js ''```js\<newline>console.log(1)'')]
   \<and> tokenize (js ''# T\<newline>```js'') = [Heading 1 (js ''T'')]"
  by (simp add: tok_defs Let_def)

lemma dropWhile_space_marker:
  "all_space ws \<Longrightarrow> \<not> is_space c \<Longrightarrow> dropWhile is_space (ws @ c # r) = c # r"
  by (simp add: all_space_def list_all_iff dropWhile_append2)

lemma openFence_backticks:
  "all_space ws \<Longrightarrow> dot_star r \<Longrightarrow> openFence (ws @ [BT, BT, BT] @ r) = Some r"
  by (simp add: openFence_def dropWhile_space_marker)

lemma openFence_tilde: "openFence (TILDE # r) = None"
  by (simp add: openFence_def)

lemma headingRe_tilde: "headingRe (TILDE # r) = None"
  by (simp add: headingRe_def)

lemma dropWhile_stop:
  "\<not> P c \<Longrightarrow> dropWhile P (xs @ c # ys) = dropWhile P xs @ c # ys"
  by (induction xs) auto

lemma trim_marker:
  assumes "all_space ws" and "\<not> is_space c"
  shows "trim (ws @ c # c # c # r) = c # c # c # rev (dropWhile is_space (rev r))"
proof -
  have "dropWhile is_space (rev r @ c # [c, c]) = dropWhile is_space (rev r) @ c # [c, c]"
    using assms(2) by (rule dropWhile_stop)
  then show ?thesis
    using assms by (simp add: trim_def dropWhile_space_marker)
qed

lemma starts3_trim:
  "all_space ws \<Longrightarrow> \<not> is_space c \<Longrightarrow> starts3 c (trim (ws @ [c, c, c] @ r))"
  using trim_marker[of ws c r] by (auto simp: starts3_def)

lemma starts3_other: "starts3 c (d # s) \<Longrightarrow> c = d"
  by (auto simp: starts3_def)

text \<open>
  Claim C5 (opening fence), as amended. Outside a fence, a line made of white space, three
  backticks and a rest without line terminator opens a fence in \<open>tokenize\<close>: the pending
  text run is flushed, fence mode is entered, and the language tag is the trimmed rest,
  absent when that is empty (further backticks belong to the rest). A line that starts with
  a tilde opens nothing there: it joins the pending text run. Only \<open>splitMarkdownByHeading\<close>
  knows both markers: outside a fence, a line of white space and three backticks or three
  tildes enters fence mode and records the marker; it flushes nothing and records no tag.
\<close>

theorem opening_fence:
  "(\<not> inCode st \<and> all_space ws \<and> dot_star r \<longrightarrow>
      tok_line st (ws @ [BT, BT, BT] @ r) =
        (flushText st)\<lparr>inCode := True,
           codeLang := (if trim r = [] then None else Some (trim r)), codeBuf := []\<rparr>)
   \<and> (\<not> inCode st \<longrightarrow> tok_line st (TILDE # r) = st\<lparr>buf := buf st @ [TILDE # r]\<rparr>)
   \<and> (\<not> inFence hs \<and> all_space ws \<and> (c = BT \<or> c = TILDE) \<longrightarrow>
      split_line level hs (ws @ [c, c, c] @ r) =
        hs\<lparr>inFence := True, fenceChar := Some c, hbuf := hbuf hs @ [ws @ [c, c, c] @ r]\<rparr>)"
proof (intro conjI impI)
  assume "\<not> inCode st \<and> all_space ws \<and> dot_star r"
  then show "tok_line st (ws @ [BT, BT, BT] @ r) =
        (flushText st)\<lparr>inCode := True,
           codeLang := (if trim r = [] then None else Some (trim r)), codeBuf := []\<rparr>"
    by (simp add: tok_line_def openFence_backticks del: append.simps)
next
  assume "\<not> inCode st"
  then show "tok_line st (TILDE # r) = st\<lparr>buf := buf st @ [TILDE # r]\<rparr>"
    by (simp add: tok_line_def openFence_tilde headingRe_tilde)
next
  assume a: "\<not> inFence hs \<and> all_space ws \<and> (c = BT \<or> c = TILDE)"
  then have ns: "\<not> is_space c" by auto
  obtain r' where t: "trim (ws @ [c, c, c] @ r) = c # c # c # r'"
    using trim_marker[of ws c r] a ns by auto
  from a show "split_line level hs (ws @ [c, c, c] @ r) =
        hs\<lparr>inFence := True, fenceChar := Some c, hbuf := hbuf hs @ [ws @ [c, c, c] @ r]\<rparr>"
    unfolding split_line_def t by (auto simp: starts3_def Let_def)
qed

text \<open>
  Claim C5 as stated says that a line of three tildes opens a fence. In \<open>tokenize\<close> it is
  text, and the heading between two such lines is a \<open>Heading\<close> token.
\<close>

theorem tilde_line_is_text:
  "tokenize (js ''~~~\<newline># H\<newline>~~~'') =
     [Text (js ''~~~''), Heading 1 (js ''H''), Text (js ''~~~'')]"
  by (simp add: tok_defs Let_def)

theorem opening_fence_witness:
  "\<not> inCode tok_init \<and> all_space [SP] \<and> dot_star (js ''js'')
   \<and> tok_line tok_init ([SP] @ [BT, BT, BT] @ js ''js'') =
       tok_init\<lparr>inCode := True, codeLang := Some (js ''js'')\<rparr>
   \<and> tok_line tok_init (TILDE # js ''~~'') = tok_init\<lparr>buf := [js ''~~~'']\<rparr>
   \<and> \<not> inFence \<lparr>chunks = [], hbuf = [], inFence = False, fenceChar = None, next_id = 1\<rparr>
   \<and> split_line 2 \<lparr>chunks = [], hbuf = [], inFence = False, fenceChar = None, next_id = 1\<rparr>
        ([SP] @ [TILDE, TILDE, TILDE] @ js ''js'') =
       \<lparr>chunks = [], hbuf = [js '' ~~~js''], inFence = True, fenceChar = Some TILDE, next_id = 1\<rparr>"
  using opening_fence [of tok_init "[SP]" "js ''js''"
      "\<lparr>chunks = [], hbuf = [], inFence = False, fenceChar = None, next_id = 1\<rparr>" TILDE 2]
  by (simp add: tok_defs)





section \<open>Text-run normalisation\<close>

lemma all_space_simps [simp]:
  "all_space []" "all_space (c # s) \<longleftrightarrow> is_space c \<and> all_space s"
  "all_space (s @ t) \<longleftrightarrow> all_space s \<and> all_space t"
  by (auto simp: all_space_def)

lemma all_space_iff: "all_space s \<longleftrightarrow> (\<forall>c\<in>set s. is_space c)"
  by (simp add: all_space_def list_all_iff)

lemma not_space_not_LF: "\<not> is_space c \<Longrightarrow> c \<noteq> LF"
  by auto

subsection \<open>Joining lines\<close>

lemma join_nl_append:
  "xs \<noteq> [] \<Longrightarrow> ys \<noteq> [] \<Longrightarrow> join_nl (xs @ ys) = join_nl xs @ LF # join_nl ys"
  by (induction xs rule: join_nl.induct) (auto, (cases ys; simp)+)

lemma join_nl_blank: "join_nl ([] # replicate k []) = replicate k LF"
  by (induction k) auto

lemma join_nl_around_blank:
  assumes "xs \<noteq> []" and "ys \<noteq> []"
  shows "join_nl (xs @ replicate (Suc k) [] @ ys) = join_nl xs @ replicate (Suc (Suc k)) LF @ join_nl ys"
proof -
  have "join_nl (xs @ (replicate (Suc k) [] @ ys)) = join_nl xs @ LF # join_nl (replicate (Suc k) [] @ ys)"
    using assms by (intro join_nl_append) simp_all
  also have "join_nl (replicate (Suc k) [] @ ys) = join_nl (replicate (Suc k) []) @ LF # join_nl ys"
    using assms by (intro join_nl_append) simp_all
  finally show ?thesis
    by (simp add: join_nl_blank replicate_append_same)
qed

lemma join_nl_snoc: "join_nl (xs @ [a]) = (if xs = [] then a else join_nl xs @ LF # a)"
  by (simp add: join_nl_append)

lemma join_nl_Cons: "join_nl (b # ys) = (if ys = [] then b else b @ LF # join_nl ys)"
  by (cases ys) simp_all

subsection \<open>The three replacements\<close>

lemma strip_lead_append:
  assumes "\<not> all_space p"
  shows "strip_lead (p @ q) = strip_lead p @ q"
proof -
  from assms obtain x where x: "x \<in> set p" "\<not> is_space x" by (auto simp: all_space_iff)
  then have tw: "takeWhile is_space (p @ q) = takeWhile is_space p"
    by (rule takeWhile_append1)
  have "length (rev (dropWhile (\<lambda>c. c \<noteq> LF) (rev (takeWhile is_space p)))) \<le> length p"
    by (metis length_rev length_dropWhile_le length_takeWhile_le order_trans)
  then show ?thesis
    by (simp add: strip_lead_def tw)
qed

lemma strip_lead_noLF:
  assumes "LF \<notin> set (takeWhile is_space s)"
  shows "strip_lead s = s"
proof -
  from assms have d: "dropWhile (\<lambda>c. c \<noteq> LF) (rev (takeWhile is_space s)) = []"
    by (auto simp: dropWhile_eq_Nil_conv)
  show ?thesis unfolding strip_lead_def Let_def d by simp
qed

lemma strip_lead_suffix:
  "\<exists>n. n \<le> length (takeWhile is_space s) \<and> strip_lead s = drop n s"
  unfolding strip_lead_def Let_def
  by (rule exI[where x = "length (rev (dropWhile (\<lambda>c. c \<noteq> LF) (rev (takeWhile is_space s))))"])
     (simp add: order_trans[OF length_dropWhile_le])

lemma strip_lead_keeps_last:
  assumes "\<not> is_space c"
  shows "\<exists>v. strip_lead (u @ [c]) = v @ [c]"
proof -
  obtain n where n: "n \<le> length (takeWhile is_space (u @ [c]))" "strip_lead (u @ [c]) = drop n (u @ [c])"
    using strip_lead_suffix by blast
  have "length (takeWhile is_space (u @ [c])) \<le> length u"
    using assms by (induction u) auto
  with n show ?thesis by auto
qed

lemma strip_lead_all_space_prefix:
  assumes "all_space w" and "w = [] \<or> last w = LF"
  shows "strip_lead (w @ s) = strip_lead s"
proof (cases "w = []")
  case True
  then show ?thesis by simp
next
  case False
  with assms(2) obtain w' where w: "w = w' @ [LF]" by (cases w rule: rev_cases) auto
  have tw: "takeWhile is_space (w @ s) = w @ takeWhile is_space s"
    using assms(1) by (simp add: all_space_iff takeWhile_append2)
  let ?t = "takeWhile is_space s"
  have r: "rev (w @ ?t) = rev ?t @ LF # rev w'"
    by (simp add: w)
  have d: "dropWhile (\<lambda>c. c \<noteq> LF) (rev ?t @ LF # rev w')
      = dropWhile (\<lambda>c. c \<noteq> LF) (rev ?t) @ LF # rev w'"
    by (rule dropWhile_stop) simp
  have "length (dropWhile (\<lambda>c. c \<noteq> LF) (rev ?t) @ LF # rev w')
      = length w + length (dropWhile (\<lambda>c. c \<noteq> LF) (rev ?t))"
    by (simp add: w)
  then show ?thesis
    unfolding strip_lead_def Let_def tw r d by (simp add: drop_append del: append_assoc)
qed

declare collapse_nl.simps(2) [simp del]

lemma collapse_nl_run_step:
  "take 2 s = [LF, LF] \<Longrightarrow>
     collapse_nl (LF # s) = LF # LF # collapse_nl (dropWhile (\<lambda>d. d = LF) s)"
  by (simp add: collapse_nl.simps(2))

lemma collapse_nl_other:
  "\<not> (c = LF \<and> take 2 s = [LF, LF]) \<Longrightarrow> collapse_nl (c # s) = c # collapse_nl s"
  by (auto simp: collapse_nl.simps(2))

lemma collapse_nl_barrier:
  "c \<noteq> LF \<Longrightarrow> collapse_nl (x @ c # y) = collapse_nl x @ c # collapse_nl y"
proof (induction x rule: collapse_nl.induct)
  case 1
  then show ?case by (simp add: collapse_nl_other)
next
  case (2 d s)
  show ?case
  proof (cases "d = LF \<and> take 2 s = [LF, LF]")
    case True
    then have t: "take 2 (s @ c # y) = [LF, LF]"
      by (cases s; cases "tl s") auto
    have dw: "dropWhile (\<lambda>d. d = LF) (s @ c # y) = dropWhile (\<lambda>d. d = LF) s @ c # y"
      using "2.prems" by (intro dropWhile_stop) simp
    have L: "collapse_nl ((d # s) @ c # y) =
        LF # LF # collapse_nl (dropWhile (\<lambda>d. d = LF) s @ c # y)"
      using True collapse_nl_run_step[OF t] dw by simp
    have R: "collapse_nl (d # s) = LF # LF # collapse_nl (dropWhile (\<lambda>d. d = LF) s)"
      using True collapse_nl_run_step[of s] by simp
    show ?thesis
      unfolding L R using "2.IH"(1)[OF True "2.prems"] by simp
  next
    case False
    then have F': "\<not> (d = LF \<and> take 2 (s @ c # y) = [LF, LF])"
      using "2.prems" by (cases s; cases "tl s") auto
    have L: "collapse_nl ((d # s) @ c # y) = d # collapse_nl (s @ c # y)"
      using collapse_nl_other[OF F'] by simp
    have R: "collapse_nl (d # s) = d # collapse_nl s"
      using collapse_nl_other[OF False] .
    show ?thesis
      unfolding L R using "2.IH"(2)[OF False "2.prems"] by simp
  qed
qed

lemma collapse_nl_noLF: "LF \<notin> set s \<Longrightarrow> collapse_nl s = s"
  by (induction s) (auto simp: collapse_nl_other)

lemma collapse_nl_noLF_prefix: "LF \<notin> set p \<Longrightarrow> collapse_nl (p @ s) = p @ collapse_nl s"
  by (induction p) (auto simp: collapse_nl_other)

lemma collapse_nl_run:
  assumes "q = [] \<or> hd q \<noteq> LF"
  shows "collapse_nl (replicate (Suc (Suc k)) LF @ q) = LF # LF # collapse_nl q"
proof (cases k)
  case 0
  have 1: "collapse_nl (LF # q) = LF # collapse_nl q"
    using assms by (intro collapse_nl_other) (cases q, auto)
  have 2: "collapse_nl (LF # LF # q) = LF # collapse_nl (LF # q)"
    using assms by (intro collapse_nl_other) (cases q, auto)
  show ?thesis unfolding 0 by (simp add: 1 2)
next
  case (Suc j)
  have dw: "dropWhile (\<lambda>d. d = LF) (replicate (Suc (Suc j)) LF @ q) = q"
    using assms by (cases q) (auto simp: dropWhile_append3)
  have "collapse_nl (LF # (replicate (Suc (Suc j)) LF @ q)) =
      LF # LF # collapse_nl (dropWhile (\<lambda>d. d = LF) (replicate (Suc (Suc j)) LF @ q))"
    by (rule collapse_nl_run_step) simp
  then show ?thesis unfolding Suc dw by simp
qed

lemma set_collapse_nl: "set (collapse_nl s) \<subseteq> set s"
proof (induction s rule: collapse_nl.induct)
  case 1
  show ?case by simp
next
  case (2 c s)
  show ?case
  proof (cases "c = LF \<and> take 2 s = [LF, LF]")
    case True
    have "set (dropWhile (\<lambda>d. d = LF) s) \<subseteq> set s"
      by (auto dest: set_dropWhileD)
    with True "2.IH"(1)[OF True] collapse_nl_run_step[of s] show ?thesis by auto
  next
    case False
    with "2.IH"(2)[OF False] collapse_nl_other[OF False] show ?thesis by auto
  qed
qed

lemma all_space_collapse_nl: "all_space s \<Longrightarrow> all_space (collapse_nl s)"
  using set_collapse_nl[of s] by (auto simp: all_space_iff)

lemma takeWhile_collapse_nl:
  "takeWhile (\<lambda>c. c \<noteq> LF) (collapse_nl s) = takeWhile (\<lambda>c. c \<noteq> LF) s"
proof (induction s rule: collapse_nl.induct)
  case 1
  show ?case by simp
next
  case (2 c s)
  show ?case
  proof (cases "c = LF \<and> take 2 s = [LF, LF]")
    case True
    with collapse_nl_run_step[of s] show ?thesis by simp
  next
    case False
    with "2.IH"(2)[OF False] collapse_nl_other[OF False] show ?thesis by simp
  qed
qed

lemma strip_tail_append:
  "\<not> all_space q \<Longrightarrow> strip_tail (p @ q) = p @ strip_tail q"
  by (induction p) auto

lemma strip_tail_all_space:
  "all_space s \<Longrightarrow> strip_tail s = takeWhile (\<lambda>c. c \<noteq> LF) s"
  by (induction s) auto

lemma strip_tail_nonspace: "\<not> is_space c \<Longrightarrow> strip_tail (c # s) = c # strip_tail s"
  by auto


lemma split_last_nonspace:
  "\<not> all_space p \<Longrightarrow> \<exists>u c z. p = u @ c # z \<and> \<not> is_space c \<and> all_space z"
proof (induction p rule: rev_induct)
  case Nil
  then show ?case by simp
next
  case (snoc x p)
  show ?case
  proof (cases "is_space x")
    case True
    with snoc obtain u c z where "p = u @ c # z" "\<not> is_space c" "all_space z" by auto
    with True have "p @ [x] = u @ c # (z @ [x]) \<and> \<not> is_space c \<and> all_space (z @ [x])" by simp
    then show ?thesis by blast
  next
    case False
    then have "p @ [x] = p @ x # [] \<and> \<not> is_space x \<and> all_space []" by simp
    then show ?thesis by blast
  qed
qed

lemma split_first_nonspace:
  "\<not> all_space p \<Longrightarrow> \<exists>w c r. p = w @ c # r \<and> all_space w \<and> \<not> is_space c"
proof (induction p)
  case Nil
  then show ?case by simp
next
  case (Cons x p)
  show ?case
  proof (cases "is_space x")
    case True
    with Cons obtain w c r where "p = w @ c # r" "all_space w" "\<not> is_space c" by auto
    with True have "x # p = (x # w) @ c # r \<and> all_space (x # w) \<and> \<not> is_space c" by simp
    then show ?thesis by blast
  next
    case False
    then have "x # p = [] @ x # p \<and> all_space [] \<and> \<not> is_space x" by simp
    then show ?thesis by blast
  qed
qed

lemma takeWhile_space_prefix:
  "all_space w \<Longrightarrow> \<not> is_space c \<Longrightarrow> takeWhile is_space (w @ c # r) = w"
  by (induction w) auto

lemma strip_tail_collapse_nl:
  assumes "\<not> is_space c" and "all_space z"
  shows "strip_tail (collapse_nl (u @ c # z)) = collapse_nl u @ c # takeWhile (\<lambda>x. x \<noteq> LF) z"
proof -
  have c: "c \<noteq> LF" using assms(1) by auto
  have "strip_tail (collapse_nl u @ c # collapse_nl z) = collapse_nl u @ strip_tail (c # collapse_nl z)"
    using assms(1) by (intro strip_tail_append) simp
  also have "strip_tail (c # collapse_nl z) = c # strip_tail (collapse_nl z)"
    using assms(1) by (rule strip_tail_nonspace)
  also have "strip_tail (collapse_nl z) = takeWhile (\<lambda>x. x \<noteq> LF) z"
    using assms(2) by (simp add: strip_tail_all_space all_space_collapse_nl takeWhile_collapse_nl)
  finally show ?thesis by (simp add: collapse_nl_barrier[OF c])
qed

lemma takeWhile_noLF: "LF \<notin> set z \<Longrightarrow> takeWhile (\<lambda>x. x \<noteq> LF) z = z"
  by (induction z) auto

lemma takeWhile_before_LF:
  "w = [] \<or> hd w = LF \<Longrightarrow> takeWhile (\<lambda>x. x \<noteq> LF) (z @ w) = takeWhile (\<lambda>x. x \<noteq> LF) z"
  by (induction z) (auto, (cases w; simp)+)

lemma not_all_space_strip_lead:
  assumes "\<not> all_space s"
  shows "\<not> all_space (strip_lead s)"
proof -
  from assms obtain w c r where s: "s = w @ c # r" "all_space w" "\<not> is_space c"
    using split_first_nonspace by blast
  obtain v where v: "strip_lead (w @ [c]) = v @ [c]"
    using strip_lead_keeps_last[OF s(3)] by blast
  have "strip_lead ((w @ [c]) @ r) = strip_lead (w @ [c]) @ r"
    using s(3) by (intro strip_lead_append) simp
  with v s show ?thesis by simp
qed

lemma not_all_space_join_nl:
  "l \<in> set ls \<Longrightarrow> \<not> all_space l \<Longrightarrow> \<not> all_space (join_nl ls)"
  by (induction ls rule: join_nl.induct) auto

lemma all_space_join_nl: "list_all all_space ws \<Longrightarrow> all_space (join_nl ws)"
  by (induction ws rule: join_nl.induct) auto

lemma trimEmptyJoin_Nil [simp]: "trimEmptyJoin [] = []"
  by (simp add: trimEmptyJoin_def strip_lead_def)

text \<open>Blank lines between two lines that hold text.\<close>

lemma trimEmptyJoin_collapse:
  assumes "LF \<notin> set a" and "LF \<notin> set b" and "\<not> all_space a" and "\<not> all_space b"
  shows "trimEmptyJoin (xs @ [a] @ replicate (Suc k) [] @ [b] @ ys) =
           trimEmptyJoin (xs @ [a]) @ [LF, LF] @ trimEmptyJoin (b # ys)"
proof -
  let ?J1 = "join_nl (xs @ [a])" and ?J2 = "join_nl (b # ys)"
  let ?n = "replicate (Suc (Suc k)) LF"
  have join: "join_nl (xs @ [a] @ replicate (Suc k) [] @ [b] @ ys) = ?J1 @ ?n @ ?J2"
    using join_nl_around_blank[of "xs @ [a]" "b # ys" k] by simp
  from assms(3) obtain a1 c a2 where a: "a = a1 @ c # a2" "\<not> is_space c" "all_space a2"
    using split_last_nonspace by blast
  from assms(1) a(1) have a2: "LF \<notin> set a2" by simp
  from assms(4) obtain b1 d b2 where b: "b = b1 @ d # b2" "all_space b1" "\<not> is_space d"
    using split_first_nonspace by blast
  from assms(2) b(1) have b1: "LF \<notin> set b1" by simp
  obtain U where U: "?J1 = (U @ [c]) @ a2"
    using a(1) by (cases "xs = []") (auto simp: join_nl_snoc)
  obtain R where R: "?J2 = b1 @ d # R"
    using b(1) by (cases "ys = []") (auto simp: join_nl_Cons)
  obtain V where V: "strip_lead (U @ [c]) = V @ [c]"
    using strip_lead_keeps_last[OF a(2)] by blast
  have nU: "\<not> all_space (U @ [c])" using a(2) by simp
  have lead: "strip_lead (?J1 @ q) = V @ c # a2 @ q" for q
  proof -
    have "strip_lead ((U @ [c]) @ (a2 @ q)) = strip_lead (U @ [c]) @ (a2 @ q)"
      using nU by (rule strip_lead_append)
    then show ?thesis by (simp add: U V)
  qed
  have c: "c \<noteq> LF" and d: "d \<noteq> LF" using a(2) b(3) by auto
  have hdJ2: "?J2 = [] \<or> hd ?J2 \<noteq> LF"
    using b1 d unfolding R by (cases b1) auto
  have cJ2: "collapse_nl ?J2 = b1 @ d # collapse_nl R"
    unfolding R by (simp add: collapse_nl_noLF_prefix[OF b1] collapse_nl_barrier[OF d, of "[]", simplified])
  have nJ2: "\<not> all_space (collapse_nl ?J2)"
    unfolding cJ2 using b(3) by simp
  have "collapse_nl (V @ c # a2 @ ?n @ ?J2) = collapse_nl V @ c # collapse_nl (a2 @ ?n @ ?J2)"
    by (rule collapse_nl_barrier[OF c])
  also have "collapse_nl (a2 @ ?n @ ?J2) = a2 @ collapse_nl (?n @ ?J2)"
    by (rule collapse_nl_noLF_prefix[OF a2])
  also have "collapse_nl (?n @ ?J2) = LF # LF # collapse_nl ?J2"
    by (rule collapse_nl_run[OF hdJ2])
  finally have mid: "collapse_nl (V @ c # a2 @ ?n @ ?J2) =
      (collapse_nl V @ c # a2 @ [LF, LF]) @ collapse_nl ?J2"
    by simp
  have whole: "trimEmptyJoin (xs @ [a] @ replicate (Suc k) [] @ [b] @ ys) =
      (collapse_nl V @ c # a2 @ [LF, LF]) @ strip_tail (collapse_nl ?J2)"
    unfolding trimEmptyJoin_def join lead mid
    by (rule strip_tail_append[OF nJ2])
  have left: "trimEmptyJoin (xs @ [a]) = collapse_nl V @ c # a2"
    unfolding trimEmptyJoin_def
    using lead[of "[]"] strip_tail_collapse_nl[OF a(2,3), of V]
    by (simp add: takeWhile_noLF[OF a2])
  have "takeWhile is_space ?J2 = b1"
    unfolding R by (rule takeWhile_space_prefix[OF b(2,3)])
  then have "strip_lead ?J2 = ?J2"
    using b1 by (intro strip_lead_noLF) simp
  then have right: "trimEmptyJoin (b # ys) = strip_tail (collapse_nl ?J2)"
    by (simp add: trimEmptyJoin_def)
  show ?thesis
    unfolding whole left right by simp
qed

text \<open>Blank lines around a run that holds text.\<close>

lemma trimEmptyJoin_trim:
  assumes "list_all all_space ws1" and "list_all all_space ws2" and "\<exists>l\<in>set ls. \<not> all_space l"
  shows "trimEmptyJoin (ws1 @ ls @ ws2) = trimEmptyJoin ls"
proof -
  let ?J = "join_nl ls"
  from assms(3) have ne: "ls \<noteq> []" by auto
  from assms(3) have nJ: "\<not> all_space ?J" using not_all_space_join_nl by blast
  define W where "W = (if ws1 = [] then [] else join_nl ws1 @ [LF])"
  define W' where "W' = (if ws2 = [] then [] else LF # join_nl ws2)"
  have W: "all_space W" "W = [] \<or> last W = LF"
    using assms(1) by (auto simp: W_def all_space_join_nl)
  have W': "all_space W'" "W' = [] \<or> hd W' = LF"
    using assms(2) by (auto simp: W'_def all_space_join_nl)
  have j2: "join_nl (ls @ ws2) = ?J @ W'"
    using ne by (simp add: W'_def join_nl_append)
  have join: "join_nl (ws1 @ ls @ ws2) = W @ ?J @ W'"
    using ne j2 by (simp add: W_def join_nl_append)
  have lead: "strip_lead (W @ ?J @ W') = strip_lead ?J @ W'"
    using strip_lead_all_space_prefix[OF W, of "?J @ W'"] strip_lead_append[OF nJ, of W'] by simp
  from not_all_space_strip_lead[OF nJ] obtain u c z
    where P: "strip_lead ?J = u @ c # z" "\<not> is_space c" "all_space z"
    using split_last_nonspace by blast
  have "strip_tail (collapse_nl (u @ c # (z @ W'))) =
      collapse_nl u @ c # takeWhile (\<lambda>x. x \<noteq> LF) (z @ W')"
    using P(2,3) W'(1) by (intro strip_tail_collapse_nl) simp_all
  moreover have "strip_tail (collapse_nl (u @ c # z)) = collapse_nl u @ c # takeWhile (\<lambda>x. x \<noteq> LF) z"
    using P(2,3) by (rule strip_tail_collapse_nl)
  moreover have "takeWhile (\<lambda>x. x \<noteq> LF) (z @ W') = takeWhile (\<lambda>x. x \<noteq> LF) z"
    using W'(2) by (rule takeWhile_before_LF)
  ultimately show ?thesis
    unfolding trimEmptyJoin_def join lead P(1) by simp
qed

lemma out_flushText_eq:
  "out (flushText st) =
     (if trimEmptyJoin (buf st) = [] then out st else out st @ [Text (trimEmptyJoin (buf st))])"
  by (auto simp: flushText_def Let_def)


text \<open>What the normalised text looks like.\<close>

lemma strip_lead_eq:
  "strip_lead s =
     rev (takeWhile (\<lambda>c. c \<noteq> LF) (rev (takeWhile is_space s))) @ dropWhile is_space s"
proof -
  let ?w = "takeWhile is_space s"
  let ?m = "rev (dropWhile (\<lambda>c. c \<noteq> LF) (rev ?w))"
  let ?t = "rev (takeWhile (\<lambda>c. c \<noteq> LF) (rev ?w))"
  have "rev ?w = takeWhile (\<lambda>c. c \<noteq> LF) (rev ?w) @ dropWhile (\<lambda>c. c \<noteq> LF) (rev ?w)"
    by simp
  then have "rev (rev ?w) = ?m @ ?t"
    by (metis rev_append)
  then have w: "?w = ?m @ ?t" by simp
  have "s = ?w @ dropWhile is_space s" by simp
  then have "s = (?m @ ?t) @ dropWhile is_space s" using w by (simp only:)
  then have "drop (length ?m) s = drop (length ?m) (?m @ (?t @ dropWhile is_space s))"
    by (simp only: append_assoc)
  also have "\<dots> = ?t @ dropWhile is_space s"
    by (simp only: append_eq_conv_conj drop_append length_rev) simp
  finally show ?thesis
    unfolding strip_lead_def Let_def .
qed

lemma hd_strip_lead: "strip_lead s = [] \<or> hd (strip_lead s) \<noteq> LF"
proof -
  let ?t = "rev (takeWhile (\<lambda>c. c \<noteq> LF) (rev (takeWhile is_space s)))"
  let ?r = "dropWhile is_space s"
  have t: "LF \<notin> set ?t"
    by (auto dest: set_takeWhileD)
  have r: "?r = [] \<or> hd ?r \<noteq> LF"
  proof (cases "?r = []")
    case True
    then show ?thesis by simp
  next
    case False
    then have "\<not> is_space (hd ?r)" by (rule hd_dropWhile)
    then show ?thesis by auto
  qed
  show ?thesis
    unfolding strip_lead_eq using t r by (cases ?t) (auto simp del: set_rev)
qed

lemma collapse_nl_Cons_ex: "\<exists>t. collapse_nl (c # s) = c # t"
  by (cases "c = LF \<and> take 2 s = [LF, LF]") (auto simp: collapse_nl_run_step collapse_nl_other)

lemma hd_collapse_nl: "s = [] \<or> hd s \<noteq> LF \<Longrightarrow> collapse_nl s = [] \<or> hd (collapse_nl s) \<noteq> LF"
  using collapse_nl_Cons_ex by (cases s) (auto, metis list.sel(1))

lemma collapse_nl_head: "collapse_nl s = x # t \<Longrightarrow> \<exists>s'. s = x # s'"
  using collapse_nl_Cons_ex by (cases s) (auto, metis list.inject)

lemma collapse_nl_two_LF:
  assumes "collapse_nl s = LF # LF # v"
  shows "take 2 s = [LF, LF]"
proof -
  from assms obtain s' where s: "s = LF # s'" using collapse_nl_head by blast
  show ?thesis
  proof (cases "take 2 s' = [LF, LF]")
    case True
    then show ?thesis unfolding s by (cases s') auto
  next
    case False
    then have "collapse_nl (LF # s') = LF # collapse_nl s'"
      by (intro collapse_nl_other) simp
    with assms s have "collapse_nl s' = LF # v" by simp
    then obtain s'' where "s' = LF # s''" using collapse_nl_head by blast
    then show ?thesis unfolding s by simp
  qed
qed

lemma collapse_nl_no_triple: "collapse_nl s \<noteq> u @ LF # LF # LF # v"
proof (induction s arbitrary: u rule: collapse_nl.induct)
  case 1
  show ?case by simp
next
  case (2 c s)
  show ?case
  proof (cases "c = LF \<and> take 2 s = [LF, LF]")
    case True
    let ?r = "dropWhile (\<lambda>d. d = LF) s"
    have eq: "collapse_nl (c # s) = LF # LF # collapse_nl ?r"
      using True collapse_nl_run_step[of s] by simp
    have "?r = [] \<or> hd ?r \<noteq> LF"
      using hd_dropWhile[of "\<lambda>d. d = LF" s] by blast
    then have h: "collapse_nl ?r = [] \<or> hd (collapse_nl ?r) \<noteq> LF"
      by (rule hd_collapse_nl)
    show ?thesis
    proof
      assume a: "collapse_nl (c # s) = u @ LF # LF # LF # v"
      show False
      proof (cases u)
        case Nil
        with a eq h show False by auto
      next
        case (Cons x u')
        show False
        proof (cases u')
          case Nil
          with a eq h Cons show False by auto
        next
          case (Cons y u'')
          with a eq \<open>u = x # u'\<close> have "collapse_nl ?r = u'' @ LF # LF # LF # v" by simp
          with "2.IH"(1)[OF True] show False by blast
        qed
      qed
    qed
  next
    case False
    have eq: "collapse_nl (c # s) = c # collapse_nl s"
      by (rule collapse_nl_other[OF False])
    show ?thesis
    proof
      assume a: "collapse_nl (c # s) = u @ LF # LF # LF # v"
      show False
      proof (cases u)
        case Nil
        with a eq have "c = LF" "collapse_nl s = LF # LF # v" by simp_all
        with collapse_nl_two_LF False show False by blast
      next
        case (Cons x u')
        with a eq have "collapse_nl s = u' @ LF # LF # LF # v" by simp
        with "2.IH"(2)[OF False] show False by blast
      qed
    qed
  qed
qed

lemma strip_tail_prefix: "\<exists>r. s = strip_tail s @ r"
  by (induction s) auto

lemma strip_tail_Nil_iff: "strip_tail s = [] \<longleftrightarrow> s = [] \<or> hd s = LF \<and> all_space (tl s)"
  by (cases s) auto

lemma last_strip_tail: "strip_tail s = [] \<or> last (strip_tail s) \<noteq> LF"
proof (induction s)
  case Nil
  show ?case by simp
next
  case (Cons c s)
  show ?case
  proof (cases "c = LF \<and> all_space s")
    case True
    then show ?thesis by simp
  next
    case False
    show ?thesis
    proof (cases "strip_tail s = []")
      case True
      then have "all_space s" by (cases s) (auto split: if_splits)
      with False have "c \<noteq> LF" by simp
      with True False show ?thesis by simp
    next
      case ne: False
      with Cons False show ?thesis by auto
    qed
  qed
qed

lemma hd_strip_tail: "s = [] \<or> hd s \<noteq> LF \<Longrightarrow> strip_tail s = [] \<or> hd (strip_tail s) \<noteq> LF"
  by (cases s) auto

lemma trimEmptyJoin_shape:
  "(trimEmptyJoin ls = [] \<or> hd (trimEmptyJoin ls) \<noteq> LF \<and> last (trimEmptyJoin ls) \<noteq> LF)
   \<and> trimEmptyJoin ls \<noteq> u @ LF # LF # LF # v"
proof -
  let ?c = "collapse_nl (strip_lead (join_nl ls))"
  have "?c = [] \<or> hd ?c \<noteq> LF"
    by (rule hd_collapse_nl[OF hd_strip_lead])
  then have 1: "strip_tail ?c = [] \<or> hd (strip_tail ?c) \<noteq> LF"
    by (rule hd_strip_tail)
  have 2: "strip_tail ?c = [] \<or> last (strip_tail ?c) \<noteq> LF"
    by (rule last_strip_tail)
  obtain r where r: "?c = strip_tail ?c @ r" using strip_tail_prefix by blast
  have 3: "strip_tail ?c \<noteq> u @ LF # LF # LF # v"
  proof
    assume "strip_tail ?c = u @ LF # LF # LF # v"
    with r have "?c = u @ LF # LF # LF # (v @ r)" by simp
    with collapse_nl_no_triple show False by blast
  qed
  show ?thesis
    unfolding trimEmptyJoin_def using 1 2 3 by blast
qed

lemma takeWhile_LF_replicate:
  "takeWhile (\<lambda>d. d = LF) q = replicate (length (takeWhile (\<lambda>d. d = LF) q)) LF"
  by (induction q) auto

lemma collapse_nl_long_run_front:
  assumes "2 \<le> m"
  shows "collapse_nl (replicate m LF @ q) = LF # LF # collapse_nl (dropWhile (\<lambda>d. d = LF) q)"
proof -
  let ?j = "length (takeWhile (\<lambda>d. d = LF) q)"
  let ?q0 = "dropWhile (\<lambda>d. d = LF) q"
  have "q = takeWhile (\<lambda>d. d = LF) q @ ?q0" by simp
  then have q: "q = replicate ?j LF @ ?q0"
    using takeWhile_LF_replicate[of q] by simp
  from assms obtain k where k: "m + ?j = Suc (Suc k)"
    by (metis add_2_eq_Suc le_Suc_ex add.assoc)
  have h: "?q0 = [] \<or> hd ?q0 \<noteq> LF"
    using hd_dropWhile[of "\<lambda>d. d = LF" q] by blast
  have "replicate m LF @ q = replicate m LF @ replicate ?j LF @ ?q0"
    using q by simp
  also have "\<dots> = replicate (Suc (Suc k)) LF @ ?q0"
    by (simp only: append_assoc[symmetric] replicate_add[symmetric] k)
  finally show ?thesis
    using collapse_nl_run[OF h, of k] by simp
qed

lemma split_trailing_LF:
  "\<exists>p0 i. p = p0 @ replicate i LF \<and> (p0 = [] \<or> last p0 \<noteq> LF)"
proof (induction p rule: rev_induct)
  case Nil
  show ?case by simp
next
  case (snoc x p)
  show ?case
  proof (cases "x = LF")
    case True
    from snoc obtain p0 i where "p = p0 @ replicate i LF" "p0 = [] \<or> last p0 \<noteq> LF" by blast
    with True have "p @ [x] = p0 @ replicate (Suc i) LF \<and> (p0 = [] \<or> last p0 \<noteq> LF)"
      by (simp add: replicate_append_same)
    then show ?thesis by blast
  next
    case False
    then have "p @ [x] = (p @ [x]) @ replicate 0 LF \<and> (p @ [x] = [] \<or> last (p @ [x]) \<noteq> LF)"
      by simp
    then show ?thesis by blast
  qed
qed

lemma collapse_nl_long_run:
  assumes "2 \<le> n"
  shows "collapse_nl (p @ replicate n LF @ q) = collapse_nl (p @ [LF, LF] @ q)"
proof -
  obtain p0 i where p: "p = p0 @ replicate i LF" "p0 = [] \<or> last p0 \<noteq> LF"
    using split_trailing_LF by blast
  have "collapse_nl (replicate (i + n) LF @ q) =
      LF # LF # collapse_nl (dropWhile (\<lambda>d. d = LF) q)"
    using assms by (intro collapse_nl_long_run_front) simp
  moreover have "collapse_nl (replicate (i + 2) LF @ q) =
      LF # LF # collapse_nl (dropWhile (\<lambda>d. d = LF) q)"
    by (intro collapse_nl_long_run_front) simp
  ultimately have run:
    "collapse_nl (replicate (i + n) LF @ q) = collapse_nl (replicate (i + 2) LF @ q)"
    by simp
  have e1: "p @ replicate n LF @ q = p0 @ replicate (i + n) LF @ q"
    by (simp add: p(1) replicate_add)
  have "replicate i LF @ [LF, LF] = replicate (i + 2) LF"
    by (induction i) simp_all
  then have e2: "p @ [LF, LF] @ q = p0 @ replicate (i + 2) LF @ q"
    by (simp add: p(1))
  show ?thesis
  proof (cases "p0 = []")
    case True
    with run show ?thesis unfolding e1 e2 by simp
  next
    case False
    with p(2) obtain u c where u: "p0 = u @ [c]" "c \<noteq> LF"
      by (cases p0 rule: rev_cases) auto
    show ?thesis
      unfolding e1 e2 u(1) using run by (simp add: collapse_nl_barrier[OF u(2)])
  qed
qed

lemma strip_lead_all_space_LF:
  "all_space w \<Longrightarrow> w = [] \<or> last w = LF \<Longrightarrow> strip_lead w = []"
  using strip_lead_all_space_prefix[of w "[]"] by (simp add: strip_lead_def)

lemma trimEmptyJoin_all_space:
  assumes "list_all all_space ws" and "ws = [] \<or> last ws = []"
  shows "trimEmptyJoin ws = []"
proof -
  have a: "all_space (join_nl ws)" using assms(1) by (rule all_space_join_nl)
  have "join_nl ws = [] \<or> last (join_nl ws) = LF"
  proof (cases "ws = [] \<or> ws = [[]]")
    case True
    then show ?thesis by auto
  next
    case False
    with assms(2) obtain ws' where "ws = ws' @ [[]]" "ws' \<noteq> []"
      by (cases ws rule: rev_cases) auto
    then show ?thesis by (simp add: join_nl_snoc)
  qed
  with a have "strip_lead (join_nl ws) = []" by (rule strip_lead_all_space_LF)
  then show ?thesis by (simp add: trimEmptyJoin_def)
qed

text \<open>A run of blank lines counts as one blank line, wherever it stands.\<close>

lemma trimEmptyJoin_blank_run:
  "trimEmptyJoin (xs @ replicate (Suc k) [] @ ys) = trimEmptyJoin (xs @ [[]] @ ys)"
proof (cases "\<exists>l\<in>set xs. \<not> all_space l")
  case True
  then have xs: "xs \<noteq> []" by auto
  from True have nJ: "\<not> all_space (join_nl xs)" using not_all_space_join_nl by blast
  show ?thesis
  proof (cases "ys = []")
    case True
    have "trimEmptyJoin ([] @ xs @ replicate (Suc k) []) = trimEmptyJoin xs"
      using \<open>\<exists>l\<in>set xs. \<not> all_space l\<close> by (intro trimEmptyJoin_trim) (simp_all add: list_all_iff)
    moreover have "trimEmptyJoin ([] @ xs @ [[]]) = trimEmptyJoin xs"
      using \<open>\<exists>l\<in>set xs. \<not> all_space l\<close> by (intro trimEmptyJoin_trim) simp_all
    ultimately show ?thesis using True by simp
  next
    case False
    have j: "join_nl (xs @ replicate (Suc k) [] @ ys) =
        join_nl xs @ replicate (Suc (Suc k)) LF @ join_nl ys"
      using xs False by (rule join_nl_around_blank)
    have j1: "join_nl (xs @ [[]] @ ys) = join_nl xs @ [LF, LF] @ join_nl ys"
      using join_nl_around_blank[OF xs False, of 0] by simp
    have "collapse_nl (strip_lead (join_nl xs) @ replicate (Suc (Suc k)) LF @ join_nl ys) =
        collapse_nl (strip_lead (join_nl xs) @ [LF, LF] @ join_nl ys)"
      by (rule collapse_nl_long_run) simp
    then show ?thesis
      unfolding trimEmptyJoin_def j j1 strip_lead_append[OF nJ] by simp
  qed
next
  case False
  then have axs: "list_all all_space xs" by (simp add: list_all_iff)
  have pre: "trimEmptyJoin ((xs @ replicate (Suc j) []) @ ys) = trimEmptyJoin ys" if "ys \<noteq> []" for j
  proof -
    let ?W = "join_nl (xs @ replicate (Suc j) []) @ [LF]"
    have "join_nl ((xs @ replicate (Suc j) []) @ ys) =
        join_nl (xs @ replicate (Suc j) []) @ LF # join_nl ys"
      using that by (intro join_nl_append) simp_all
    then have "join_nl ((xs @ replicate (Suc j) []) @ ys) = ?W @ join_nl ys"
      by simp
    moreover have "list_all all_space (xs @ replicate (Suc j) [])"
      using axs by (auto simp: list_all_iff)
    then have "all_space ?W"
      using all_space_join_nl[of "xs @ replicate (Suc j) []"] by simp
    ultimately have "strip_lead (join_nl ((xs @ replicate (Suc j) []) @ ys)) = strip_lead (join_nl ys)"
      using strip_lead_all_space_prefix[of ?W "join_nl ys"] by simp
    then show ?thesis by (simp add: trimEmptyJoin_def)
  qed
  show ?thesis
  proof (cases "ys = []")
    case True
    have "list_all all_space (xs @ replicate (Suc k) [])"
      using axs by (auto simp: list_all_iff)
    moreover have "last (xs @ replicate (Suc k) []) = []"
      by (simp del: replicate_Suc)
    ultimately have "trimEmptyJoin (xs @ replicate (Suc k) []) = []"
      by (intro trimEmptyJoin_all_space) simp_all
    moreover have "trimEmptyJoin (xs @ [[]]) = []"
      using axs by (intro trimEmptyJoin_all_space) simp_all
    ultimately show ?thesis using True by simp
  next
    case ne: False
    show ?thesis using pre[OF ne, of k] pre[OF ne, of 0] by simp
  qed
qed

lemma join_nl_middle:
  assumes "xs \<noteq> []" and "ys \<noteq> []"
  shows "join_nl (xs @ ws @ ys) = join_nl xs @ LF # concat (map (\<lambda>w. w @ [LF]) ws) @ join_nl ys"
  using assms(1)
proof (induction ws arbitrary: xs)
  case Nil
  then show ?case using assms(2) by (simp add: join_nl_append)
next
  case (Cons w ws)
  have "join_nl ((xs @ [w]) @ ws @ ys) =
      join_nl (xs @ [w]) @ LF # concat (map (\<lambda>w. w @ [LF]) ws) @ join_nl ys"
    by (rule Cons.IH) simp
  then show ?case using Cons.prems by (simp add: join_nl_snoc)
qed

lemma collapse_nl_single_LF:
  "q = [] \<or> hd q \<noteq> LF \<Longrightarrow> collapse_nl (LF # q) = LF # collapse_nl q"
  by (intro collapse_nl_other) (cases q, auto)

lemma collapse_nl_kept_lines:
  assumes "\<forall>w\<in>set ws. w \<noteq> [] \<and> LF \<notin> set w" and "q = [] \<or> hd q \<noteq> LF"
  shows "collapse_nl (LF # concat (map (\<lambda>w. w @ [LF]) ws) @ q) =
           LF # concat (map (\<lambda>w. w @ [LF]) ws) @ collapse_nl q"
  using assms(1)
proof (induction ws)
  case Nil
  show ?case using assms(2) by (simp add: collapse_nl_single_LF)
next
  case (Cons w ws)
  let ?r = "LF # concat (map (\<lambda>w. w @ [LF]) ws) @ q"
  from Cons.prems have w: "w \<noteq> []" "LF \<notin> set w" by simp_all
  then have "hd (w @ ?r) \<noteq> LF" by (cases w) auto
  then have "collapse_nl (LF # w @ ?r) = LF # collapse_nl (w @ ?r)"
    by (intro collapse_nl_single_LF) simp
  also have "collapse_nl (w @ ?r) = w @ collapse_nl ?r"
    by (rule collapse_nl_noLF_prefix[OF w(2)])
  also have "collapse_nl ?r = LF # concat (map (\<lambda>w. w @ [LF]) ws) @ collapse_nl q"
    using Cons by simp
  finally show ?case by simp
qed

text \<open>Lines that are not empty, between two lines that hold text, are kept as they are.\<close>

lemma trimEmptyJoin_kept:
  assumes "LF \<notin> set a" and "LF \<notin> set b" and "\<not> all_space a" and "\<not> all_space b"
    and "\<forall>w\<in>set ws. w \<noteq> [] \<and> LF \<notin> set w"
  shows "trimEmptyJoin (xs @ [a] @ ws @ [b] @ ys) =
           trimEmptyJoin (xs @ [a]) @ LF # concat (map (\<lambda>w. w @ [LF]) ws) @ trimEmptyJoin (b # ys)"
proof -
  let ?J1 = "join_nl (xs @ [a])" and ?J2 = "join_nl (b # ys)"
  let ?M = "concat (map (\<lambda>w. w @ [LF]) ws)"
  have join: "join_nl (xs @ [a] @ ws @ [b] @ ys) = ?J1 @ LF # ?M @ ?J2"
    using join_nl_middle[of "xs @ [a]" "b # ys" ws] by simp
  from assms(3) obtain a1 c a2 where a: "a = a1 @ c # a2" "\<not> is_space c" "all_space a2"
    using split_last_nonspace by blast
  from assms(1) a(1) have a2: "LF \<notin> set a2" by simp
  from assms(4) obtain b1 d b2 where b: "b = b1 @ d # b2" "all_space b1" "\<not> is_space d"
    using split_first_nonspace by blast
  from assms(2) b(1) have b1: "LF \<notin> set b1" by simp
  obtain U where U: "?J1 = (U @ [c]) @ a2"
    using a(1) by (cases "xs = []") (auto simp: join_nl_snoc)
  obtain R where R: "?J2 = b1 @ d # R"
    using b(1) by (cases "ys = []") (auto simp: join_nl_Cons)
  obtain V where V: "strip_lead (U @ [c]) = V @ [c]"
    using strip_lead_keeps_last[OF a(2)] by blast
  have nU: "\<not> all_space (U @ [c])" using a(2) by simp
  have lead: "strip_lead (?J1 @ q) = V @ c # a2 @ q" for q
  proof -
    have "strip_lead ((U @ [c]) @ (a2 @ q)) = strip_lead (U @ [c]) @ (a2 @ q)"
      using nU by (rule strip_lead_append)
    then show ?thesis by (simp add: U V)
  qed
  have c: "c \<noteq> LF" and d: "d \<noteq> LF" using a(2) b(3) by auto
  have hdJ2: "?J2 = [] \<or> hd ?J2 \<noteq> LF"
    using b1 d unfolding R by (cases b1) auto
  have cJ2: "collapse_nl ?J2 = b1 @ d # collapse_nl R"
    unfolding R by (simp add: collapse_nl_noLF_prefix[OF b1] collapse_nl_barrier[OF d, of "[]", simplified])
  have nJ2: "\<not> all_space (collapse_nl ?J2)"
    unfolding cJ2 using b(3) by simp
  have "collapse_nl (V @ c # a2 @ LF # ?M @ ?J2) = collapse_nl V @ c # collapse_nl (a2 @ LF # ?M @ ?J2)"
    by (rule collapse_nl_barrier[OF c])
  also have "collapse_nl (a2 @ LF # ?M @ ?J2) = a2 @ collapse_nl (LF # ?M @ ?J2)"
    by (rule collapse_nl_noLF_prefix[OF a2])
  also have "collapse_nl (LF # ?M @ ?J2) = LF # ?M @ collapse_nl ?J2"
    by (rule collapse_nl_kept_lines[OF assms(5) hdJ2])
  finally have mid: "collapse_nl (V @ c # a2 @ LF # ?M @ ?J2) =
      (collapse_nl V @ c # a2 @ LF # ?M) @ collapse_nl ?J2"
    by simp
  have whole: "trimEmptyJoin (xs @ [a] @ ws @ [b] @ ys) =
      (collapse_nl V @ c # a2 @ LF # ?M) @ strip_tail (collapse_nl ?J2)"
    unfolding trimEmptyJoin_def join lead mid
    by (rule strip_tail_append[OF nJ2])
  have left: "trimEmptyJoin (xs @ [a]) = collapse_nl V @ c # a2"
    unfolding trimEmptyJoin_def
    using lead[of "[]"] strip_tail_collapse_nl[OF a(2,3), of V]
    by (simp add: takeWhile_noLF[OF a2])
  have "takeWhile is_space ?J2 = b1"
    unfolding R by (rule takeWhile_space_prefix[OF b(2,3)])
  then have "strip_lead ?J2 = ?J2"
    using b1 by (intro strip_lead_noLF) simp
  then have right: "trimEmptyJoin (b # ys) = strip_tail (collapse_nl ?J2)"
    by (simp add: trimEmptyJoin_def)
  show ?thesis
    unfolding whole left right by simp
qed

lemma strip_tail_noLF: "LF \<notin> set s \<Longrightarrow> strip_tail s = s"
  by (induction s) auto

text \<open>A run of lines of white space: what is left is its last line.\<close>

lemma trimEmptyJoin_white_run:
  assumes "list_all all_space ws" and "LF \<notin> set z"
  shows "trimEmptyJoin (ws @ [z]) = z"
proof -
  define W where "W = (if ws = [] then [] else join_nl ws @ [LF])"
  have W: "all_space W" "W = [] \<or> last W = LF"
    using assms(1) by (auto simp: W_def all_space_join_nl)
  have j: "join_nl (ws @ [z]) = W @ z"
    by (simp add: W_def join_nl_snoc)
  have "LF \<notin> set (takeWhile is_space z)"
    using assms(2) by (auto dest: set_takeWhileD)
  then have "strip_lead z = z" by (rule strip_lead_noLF)
  then have "strip_lead (W @ z) = z"
    using strip_lead_all_space_prefix[OF W, of z] by simp
  then show ?thesis
    unfolding trimEmptyJoin_def j
    by (simp add: collapse_nl_noLF[OF assms(2)] strip_tail_noLF[OF assms(2)])
qed

text \<open>
  Claim C6 (normalisation of a text run), as amended. Wherever it stands in the run, a
  sequence of one or more empty lines gives the same text as one empty line; between two
  lines that hold text, two or more empty lines (so also three or more) leave exactly one
  empty line (two LF), while lines that are not empty, those of white space included, stay
  as they are. Empty lines and lines of white space before and after a run that holds text
  do not change the text. When all lines before the last are empty or of white space, the
  text is the last line as it is. The text never starts or ends with a LF and never has
  three LF in a row. A run whose normalised text is empty adds no token, and any other run
  adds one \<open>Text\<close> token with the normalised text.
\<close>

theorem text_run_normalisation:
  "(1 \<le> k \<longrightarrow> trimEmptyJoin (xs @ replicate k [] @ ys) = trimEmptyJoin (xs @ [[]] @ ys))
   \<and> (LF \<notin> set a \<and> LF \<notin> set b \<and> \<not> all_space a \<and> \<not> all_space b \<and> 1 \<le> k \<longrightarrow>
      trimEmptyJoin (xs @ [a] @ replicate k [] @ [b] @ ys) =
        trimEmptyJoin (xs @ [a]) @ [LF, LF] @ trimEmptyJoin (b # ys))
   \<and> (LF \<notin> set a \<and> LF \<notin> set b \<and> \<not> all_space a \<and> \<not> all_space b
       \<and> (\<forall>m\<in>set ms. m \<noteq> [] \<and> LF \<notin> set m) \<longrightarrow>
      trimEmptyJoin (xs @ [a] @ ms @ [b] @ ys) =
        trimEmptyJoin (xs @ [a]) @ LF # concat (map (\<lambda>m. m @ [LF]) ms) @ trimEmptyJoin (b # ys))
   \<and> (list_all all_space ws1 \<and> list_all all_space ws2 \<and> (\<exists>l\<in>set ls. \<not> all_space l) \<longrightarrow>
      trimEmptyJoin (ws1 @ ls @ ws2) = trimEmptyJoin ls)
   \<and> (list_all all_space ws \<and> LF \<notin> set z \<longrightarrow> trimEmptyJoin (ws @ [z]) = z)
   \<and> (trimEmptyJoin ls = [] \<or> hd (trimEmptyJoin ls) \<noteq> LF \<and> last (trimEmptyJoin ls) \<noteq> LF)
   \<and> trimEmptyJoin ls \<noteq> u @ LF # LF # LF # v
   \<and> out (flushText st) =
       (if trimEmptyJoin (buf st) = [] then out st
        else out st @ [Text (trimEmptyJoin (buf st))])"
proof (intro conjI impI)
  assume "1 \<le> k"
  then obtain j where k: "k = Suc j" by (cases k) auto
  show "trimEmptyJoin (xs @ replicate k [] @ ys) = trimEmptyJoin (xs @ [[]] @ ys)"
    unfolding k by (rule trimEmptyJoin_blank_run)
next
  assume h: "LF \<notin> set a \<and> LF \<notin> set b \<and> \<not> all_space a \<and> \<not> all_space b \<and> 1 \<le> k"
  then obtain j where k: "k = Suc j" by (cases k) auto
  from h show "trimEmptyJoin (xs @ [a] @ replicate k [] @ [b] @ ys) =
        trimEmptyJoin (xs @ [a]) @ [LF, LF] @ trimEmptyJoin (b # ys)"
    unfolding k by (intro trimEmptyJoin_collapse) simp_all
next
  assume "LF \<notin> set a \<and> LF \<notin> set b \<and> \<not> all_space a \<and> \<not> all_space b
       \<and> (\<forall>m\<in>set ms. m \<noteq> [] \<and> LF \<notin> set m)"
  then show "trimEmptyJoin (xs @ [a] @ ms @ [b] @ ys) =
        trimEmptyJoin (xs @ [a]) @ LF # concat (map (\<lambda>m. m @ [LF]) ms) @ trimEmptyJoin (b # ys)"
    by (intro trimEmptyJoin_kept) simp_all
next
  assume "list_all all_space ws1 \<and> list_all all_space ws2 \<and> (\<exists>l\<in>set ls. \<not> all_space l)"
  then show "trimEmptyJoin (ws1 @ ls @ ws2) = trimEmptyJoin ls"
    by (intro trimEmptyJoin_trim) simp_all
next
  assume "list_all all_space ws \<and> LF \<notin> set z"
  then show "trimEmptyJoin (ws @ [z]) = z"
    by (intro trimEmptyJoin_white_run) simp_all
next
  show "trimEmptyJoin ls = [] \<or> hd (trimEmptyJoin ls) \<noteq> LF \<and> last (trimEmptyJoin ls) \<noteq> LF"
    using trimEmptyJoin_shape by blast
next
  show "trimEmptyJoin ls \<noteq> u @ LF # LF # LF # v"
    using trimEmptyJoin_shape by blast
next
  show "out (flushText st) =
       (if trimEmptyJoin (buf st) = [] then out st
        else out st @ [Text (trimEmptyJoin (buf st))])"
    by (rule out_flushText_eq)
qed

theorem text_run_normalisation_witness:
  "LF \<notin> set (js ''a'') \<and> LF \<notin> set (js ''b'')
   \<and> \<not> all_space (js ''a'') \<and> \<not> all_space (js ''b'') \<and> (1::nat) \<le> 3
   \<and> trimEmptyJoin ([] @ [js ''a''] @ replicate 3 [] @ [js ''b''] @ []) = js ''a\<newline>\<newline>b''
   \<and> trimEmptyJoin ([] @ replicate 3 [] @ []) = trimEmptyJoin ([] @ [[]] @ [])
   \<and> list_all (\<lambda>m. m \<noteq> [] \<and> LF \<notin> set m) [js '' '', js '' '', js '' '']
   \<and> trimEmptyJoin ([] @ [js ''a''] @ [js '' '', js '' '', js '' ''] @ [js ''b''] @ []) =
       js ''a\<newline> \<newline> \<newline> \<newline>b''
   \<and> list_all all_space [[], js '' ''] \<and> list_all all_space [[]]
   \<and> \<not> all_space (js ''x'')
   \<and> trimEmptyJoin ([[], js '' ''] @ [js ''x''] @ [[]]) = js ''x''
   \<and> trimEmptyJoin [js ''x''] = js ''x''
   \<and> LF \<notin> set (js '' '')
   \<and> trimEmptyJoin ([[]] @ [js '' '']) = js '' ''
   \<and> trimEmptyJoin [[], []] = []
   \<and> out (flushText (tok_init\<lparr>buf := [[], []]\<rparr>)) = []"
  using text_run_normalisation [where a = "js ''a''" and b = "js ''b''" and k = 3 and xs = "[]"
      and ys = "[]" and ms = "[js '' '', js '' '', js '' '']"
      and ?ws1.0 = "[[], js '' '']" and ?ws2.0 = "[[]]" and ls = "[js ''x'']"
      and ws = "[[]]" and z = "js '' ''"
      and st = "tok_init\<lparr>buf := [[], []]\<rparr>"]
  by (simp add: tok_defs numeral_3_eq_3)

text \<open>
  Claim C6 as stated, a blank line being one that is empty or holds only white space: three
  such lines between two lines of text are not collapsed, a run that is one line of white
  space gives a token of white space, and a blank line before a line of white space is
  trimmed while the line of white space stays.
\<close>

theorem white_space_lines_kept:
  "tokenize (js ''a\<newline> \<newline> \<newline> \<newline>b'') = [Text (js ''a\<newline> \<newline> \<newline> \<newline>b'')]
   \<and> tokenize (js '' '') = [Text (js '' '')]
   \<and> trimEmptyJoin [[], js '' ''] = js '' ''"
  by (simp add: tok_defs)


section \<open>The segmenter\<close>


lemma seg_run_Nil [simp]: "seg_run rnd d [] = seg_init"
  by (simp add: seg_run_def)

lemma seg_run_snoc: "seg_run rnd d (ps @ [p]) = seg_step rnd d (seg_run rnd d ps) p"
  by (simp add: seg_run_def)

lemma seg_step_boundary:
  "is_boundary d p \<Longrightarrow> \<exists>l t. p = Heading l t \<and> l \<le> d \<and> seg_step rnd d st p = startSeg rnd (Some (l, t)) st"
  by (cases p) auto

lemma seg_step_other:
  "\<not> is_boundary d p \<Longrightarrow> seg_step rnd d st p = push_part p (ensure_cur rnd st)"
  by (cases p) auto

lemma cur_ensure_cur: "cur (ensure_cur rnd st) \<noteq> None"
  by (simp add: ensure_cur_def startSeg_def Let_def)

lemma cur_last_startSeg: "cur_last (startSeg rnd h st)"
  by (simp add: cur_last_def startSeg_def Let_def)

lemma cur_last_push: "cur_last st \<Longrightarrow> cur_last (push_part p st)"
  by (auto simp: cur_last_def push_part_def split: option.splits if_splits)

lemma cur_last_ensure: "cur_last st \<Longrightarrow> cur_last (ensure_cur rnd st)"
  by (simp add: ensure_cur_def cur_last_startSeg)

lemma cur_last_seg_run: "cur_last (seg_run rnd d ps)"
proof (induction ps rule: rev_induct)
  case Nil
  show ?case by (simp add: cur_last_def seg_init_def)
next
  case (snoc p ps)
  show ?case
  proof (cases "is_boundary d p")
    case True
    then show ?thesis using seg_step_boundary[OF True, of rnd "seg_run rnd d ps"]
      by (auto simp: seg_run_snoc cur_last_startSeg)
  next
    case False
    then show ?thesis using snoc
      by (simp add: seg_run_snoc seg_step_other cur_last_push cur_last_ensure)
  qed
qed

lemma list_update_last:
  "xs \<noteq> [] \<Longrightarrow> xs[length xs - Suc 0 := v] = butlast xs @ [v]"
  by (induction xs rule: rev_induct) auto

lemma nth_length_last:
  "xs \<noteq> [] \<Longrightarrow> xs ! (length xs - Suc 0) = last xs"
  by (induction xs rule: rev_induct) auto

lemma segs_step_boundary:
  "l \<le> d \<Longrightarrow> segs (seg_run rnd d (ps @ [Heading l t])) =
     segs (seg_run rnd d ps) @
       [\<lparr>seg_id = (length (segs (seg_run rnd d ps)), rnd (length (segs (seg_run rnd d ps)))),
         heading = Some (l, t), parts = [Heading l t]\<rparr>]"
  by (simp add: seg_run_snoc startSeg_def Let_def)

lemma segs_step_first:
  assumes "\<not> is_boundary d p" and "segs (seg_run rnd d ps) = []"
  shows "segs (seg_run rnd d (ps @ [p])) = [\<lparr>seg_id = (0, rnd 0), heading = None, parts = [p]\<rparr>]"
  using assms cur_last_seg_run[of rnd d ps]
  by (simp add: seg_run_snoc seg_step_other cur_last_def ensure_cur_def startSeg_def push_part_def Let_def)

lemma segs_step_append:
  assumes "\<not> is_boundary d p" and "segs (seg_run rnd d ps) \<noteq> []"
  shows "segs (seg_run rnd d (ps @ [p])) =
     butlast (segs (seg_run rnd d ps)) @
       [(last (segs (seg_run rnd d ps)))\<lparr>parts := parts (last (segs (seg_run rnd d ps))) @ [p]\<rparr>]"
  using assms cur_last_seg_run[of rnd d ps]
  by (simp add: seg_run_snoc seg_step_other cur_last_def ensure_cur_def push_part_def list_update_last nth_length_last)

lemma parts_nonempty_seg_run: "s \<in> set (segs (seg_run rnd d ps)) \<Longrightarrow> parts s \<noteq> []"
proof (induction ps arbitrary: s rule: rev_induct)
  case Nil
  then show ?case by (simp add: seg_init_def)
next
  case (snoc p ps)
  show ?case
  proof (cases "is_boundary d p")
    case True
    then obtain l t where p: "p = Heading l t" "l \<le> d" by (cases p) auto
    with snoc show ?thesis by (auto simp: segs_step_boundary)
  next
    case False
    show ?thesis
    proof (cases "segs (seg_run rnd d ps) = []")
      case True
      with snoc False show ?thesis by (auto simp: segs_step_first)
    next
      case ne: False
      with snoc False show ?thesis
        by (auto simp: segs_step_append dest: in_set_butlastD)
    qed
  qed
qed

lemma toSegments_segs: "toSegments rnd ps d = segs (seg_run rnd d ps)"
  unfolding toSegments_def
  by (rule filter_True) (auto dest: parts_nonempty_seg_run)


lemma toSegments_Nil: "toSegments rnd [] d = []"
  by (simp add: toSegments_segs seg_init_def)

lemma toSegments_boundary:
  "l \<le> d \<Longrightarrow> toSegments rnd (ps @ [Heading l t]) d =
     toSegments rnd ps d @
       [\<lparr>seg_id = (length (toSegments rnd ps d), rnd (length (toSegments rnd ps d))),
         heading = Some (l, t), parts = [Heading l t]\<rparr>]"
  by (simp add: toSegments_segs segs_step_boundary)

lemma toSegments_first:
  "\<not> is_boundary d p \<Longrightarrow> toSegments rnd ps d = [] \<Longrightarrow>
     toSegments rnd (ps @ [p]) d = [\<lparr>seg_id = (0, rnd 0), heading = None, parts = [p]\<rparr>]"
  by (simp add: toSegments_segs segs_step_first)

lemma toSegments_append:
  "\<not> is_boundary d p \<Longrightarrow> toSegments rnd ps d \<noteq> [] \<Longrightarrow>
     toSegments rnd (ps @ [p]) d =
       butlast (toSegments rnd ps d) @
         [(last (toSegments rnd ps d))\<lparr>parts := parts (last (toSegments rnd ps d)) @ [p]\<rparr>]"
  by (simp add: toSegments_segs segs_step_append)

lemma toSegments_no_boundary:
  "qs \<noteq> [] \<Longrightarrow> \<forall>q\<in>set qs. \<not> is_boundary d q \<Longrightarrow>
     toSegments rnd qs d = [\<lparr>seg_id = (0, rnd 0), heading = None, parts = qs\<rparr>]"
proof (induction qs rule: rev_induct)
  case Nil
  then show ?case by simp
next
  case (snoc q qs)
  show ?case
  proof (cases "qs = []")
    case True
    with snoc.prems show ?thesis
      using toSegments_first[of d q rnd "[]"] by (simp add: toSegments_Nil)
  next
    case False
    with snoc have "toSegments rnd qs d = [\<lparr>seg_id = (0, rnd 0), heading = None, parts = qs\<rparr>]"
      by simp
    with snoc.prems show ?thesis
      using toSegments_append[of d q rnd qs] by simp
  qed
qed

lemma hd_butlast_ne: "butlast xs \<noteq> [] \<Longrightarrow> hd (butlast xs) = hd xs"
  by (cases xs) auto

lemma toSegments_hd_stable:
  "2 \<le> length (toSegments rnd ps d) \<Longrightarrow>
     2 \<le> length (toSegments rnd (ps @ rest) d)
     \<and> hd (toSegments rnd (ps @ rest) d) = hd (toSegments rnd ps d)"
proof (induction rest rule: rev_induct)
  case Nil
  then show ?case by simp
next
  case (snoc p rest)
  let ?S = "toSegments rnd (ps @ rest) d"
  from snoc have S: "2 \<le> length ?S" "hd ?S = hd (toSegments rnd ps d)" by simp_all
  then have ne: "?S \<noteq> []" by auto
  from S have bl: "butlast ?S \<noteq> []" by (cases ?S rule: rev_cases) auto
  show ?case
  proof (cases "is_boundary d p")
    case True
    then obtain l t where p: "p = Heading l t" "l \<le> d" by (cases p) auto
    show ?thesis
      using toSegments_boundary[OF p(2), of rnd "ps @ rest" t] S ne
      by (simp add: p(1))
  next
    case False
    show ?thesis
      using toSegments_append[OF False ne] S bl
      by (simp add: hd_append hd_butlast_ne)
  qed
qed

text \<open>
  Claim C8 (boundary rule of the segmenter). Read at the end of a token sequence: a heading
  whose level is at most the depth adds a new last section with that heading as its
  \<open>heading\<close> attribute; any other token (a deeper heading, text, code) is appended to the
  parts of the last section and adds no section; when no section is open yet, such a token
  opens a section without heading; and the tokens before the first boundary heading form
  the first section, which has no heading. This holds for every depth.
\<close>

theorem segmenter_boundary_rule:
  "(l \<le> d \<longrightarrow>
      toSegments rnd (ps @ [Heading l t]) d =
        toSegments rnd ps d @
          [\<lparr>seg_id = (length (toSegments rnd ps d), rnd (length (toSegments rnd ps d))),
            heading = Some (l, t), parts = [Heading l t]\<rparr>])
   \<and> (\<not> is_boundary d p \<and> toSegments rnd ps d \<noteq> [] \<longrightarrow>
      toSegments rnd (ps @ [p]) d =
        butlast (toSegments rnd ps d) @
          [(last (toSegments rnd ps d))\<lparr>parts := parts (last (toSegments rnd ps d)) @ [p]\<rparr>])
   \<and> (\<not> is_boundary d p \<longrightarrow>
      toSegments rnd [p] d = [\<lparr>seg_id = (0, rnd 0), heading = None, parts = [p]\<rparr>])
   \<and> (qs \<noteq> [] \<and> (\<forall>q\<in>set qs. \<not> is_boundary d q) \<and> l' \<le> d \<longrightarrow>
      take 1 (toSegments rnd (qs @ Heading l' t' # rest) d) =
        [\<lparr>seg_id = (0, rnd 0), heading = None, parts = qs\<rparr>])"
proof (intro conjI impI)
  assume a: "qs \<noteq> [] \<and> (\<forall>q\<in>set qs. \<not> is_boundary d q) \<and> l' \<le> d"
  then have q: "toSegments rnd qs d = [\<lparr>seg_id = (0, rnd 0), heading = None, parts = qs\<rparr>]"
    by (simp add: toSegments_no_boundary)
  from a have "toSegments rnd (qs @ [Heading l' t']) d =
      [\<lparr>seg_id = (0, rnd 0), heading = None, parts = qs\<rparr>,
       \<lparr>seg_id = (1, rnd 1), heading = Some (l', t'), parts = [Heading l' t']\<rparr>]"
    using toSegments_boundary[of l' d rnd qs t'] q by simp
  then have "2 \<le> length (toSegments rnd ((qs @ [Heading l' t']) @ rest) d)
      \<and> hd (toSegments rnd ((qs @ [Heading l' t']) @ rest) d) =
        \<lparr>seg_id = (0, rnd 0), heading = None, parts = qs\<rparr>"
    using toSegments_hd_stable[of rnd "qs @ [Heading l' t']" d rest] by simp
  then have "take 1 (toSegments rnd ((qs @ [Heading l' t']) @ rest) d) =
      [\<lparr>seg_id = (0, rnd 0), heading = None, parts = qs\<rparr>]"
    by (cases "toSegments rnd ((qs @ [Heading l' t']) @ rest) d") auto
  then show "take 1 (toSegments rnd (qs @ Heading l' t' # rest) d) =
      [\<lparr>seg_id = (0, rnd 0), heading = None, parts = qs\<rparr>]"
    by simp
qed (simp_all add: toSegments_boundary toSegments_append toSegments_no_boundary)


theorem segmenter_boundary_rule_witness:
  "(2::nat) \<le> 2
   \<and> \<not> is_boundary 2 (Heading 3 (js ''c''))
   \<and> toSegments rnd0 [Heading 1 (js ''A''), Text (js ''x'')] 2 \<noteq> []
   \<and> toSegments rnd0 ([Heading 1 (js ''A''), Text (js ''x'')] @ [Heading 2 (js ''B'')]) 2 =
       [\<lparr>seg_id = (0, rnd0 0), heading = Some (1, js ''A''),
         parts = [Heading 1 (js ''A''), Text (js ''x'')]\<rparr>,
        \<lparr>seg_id = (1, rnd0 1), heading = Some (2, js ''B''), parts = [Heading 2 (js ''B'')]\<rparr>]
   \<and> toSegments rnd0 ([Heading 1 (js ''A''), Text (js ''x'')] @ [Heading 3 (js ''c'')]) 2 =
       [\<lparr>seg_id = (0, rnd0 0), heading = Some (1, js ''A''),
         parts = [Heading 1 (js ''A''), Text (js ''x''), Heading 3 (js ''c'')]\<rparr>]
   \<and> toSegments rnd0 [Heading 3 (js ''c'')] 2 =
       [\<lparr>seg_id = (0, rnd0 0), heading = None, parts = [Heading 3 (js ''c'')]\<rparr>]
   \<and> [Text (js ''p''), Heading 3 (js ''c'')] \<noteq> []
   \<and> list_all (\<lambda>q. \<not> is_boundary 2 q) [Text (js ''p''), Heading 3 (js ''c'')]
   \<and> take 1 (toSegments rnd0
        ([Text (js ''p''), Heading 3 (js ''c'')] @ Heading 2 (js ''B'') # [Text (js ''y'')]) 2) =
       [\<lparr>seg_id = (0, rnd0 0), heading = None,
         parts = [Text (js ''p''), Heading 3 (js ''c'')]\<rparr>]"
  using segmenter_boundary_rule [of 2 2 rnd0 "[Heading 1 (js ''A''), Text (js ''x'')]" "js ''B''"
    "Heading 3 (js ''c'')" "[Text (js ''p''), Heading 3 (js ''c'')]" 2 "js ''B''" "[Text (js ''y'')]"]
  by (simp add: seg_defs)

lemma boundary_headings_append:
  "boundary_headings d (ps @ qs) = boundary_headings d ps @ boundary_headings d qs"
  by (induction d ps rule: boundary_headings.induct) auto

lemma boundary_headings_other: "\<not> is_boundary d p \<Longrightarrow> boundary_headings d [p] = []"
  by (cases p) auto

lemma concat_parts_butlast_last:
  "S \<noteq> [] \<Longrightarrow> concat (map parts (butlast S @ [(last S)\<lparr>parts := parts (last S) @ [p]\<rparr>])) =
     concat (map parts S) @ [p]"
  by (induction S rule: rev_induct) auto

lemma headed_butlast_last:
  "S \<noteq> [] \<Longrightarrow>
     map heading (filter (\<lambda>s. heading s \<noteq> None) (butlast S @ [(last S)\<lparr>parts := parts (last S) @ [p]\<rparr>])) =
     map heading (filter (\<lambda>s. heading s \<noteq> None) S)"
  by (induction S rule: rev_induct) auto

lemma toSegments_snoc_cases:
  obtains (boundary) l t where "p = Heading l t" "l \<le> d"
      "toSegments rnd (ps @ [p]) d =
        toSegments rnd ps d @
          [\<lparr>seg_id = (length (toSegments rnd ps d), rnd (length (toSegments rnd ps d))),
            heading = Some (l, t), parts = [Heading l t]\<rparr>]"
  | (first) "\<not> is_boundary d p" "toSegments rnd ps d = []"
      "toSegments rnd (ps @ [p]) d = [\<lparr>seg_id = (0, rnd 0), heading = None, parts = [p]\<rparr>]"
  | (append) "\<not> is_boundary d p" "toSegments rnd ps d \<noteq> []"
      "toSegments rnd (ps @ [p]) d =
        butlast (toSegments rnd ps d) @
          [(last (toSegments rnd ps d))\<lparr>parts := parts (last (toSegments rnd ps d)) @ [p]\<rparr>]"
proof (cases "is_boundary d p")
  case True
  then obtain l t where "p = Heading l t" "l \<le> d" by (cases p) auto
  then show ?thesis using boundary toSegments_boundary by blast
next
  case False
  then show ?thesis using first append toSegments_first toSegments_append by blast
qed

lemma toSegments_parts_nonempty: "s \<in> set (toSegments rnd ps d) \<Longrightarrow> parts s \<noteq> []"
  by (simp add: toSegments_segs parts_nonempty_seg_run)

lemma concat_parts_toSegments: "concat (map parts (toSegments rnd ps d)) = ps"
proof (induction ps rule: rev_induct)
  case Nil
  show ?case by (simp add: toSegments_Nil)
next
  case (snoc p ps)
  show ?case
  proof (cases rule: toSegments_snoc_cases[of p d rnd ps])
    case (boundary l t)
    with snoc show ?thesis by simp
  next
    case first
    with snoc show ?thesis by simp
  next
    case append
    have "concat (map parts (toSegments rnd (ps @ [p]) d)) =
        concat (map parts (toSegments rnd ps d)) @ [p]"
      unfolding append(3) by (rule concat_parts_butlast_last[OF append(2)])
    with snoc show ?thesis by simp
  qed
qed

lemma headings_toSegments:
  "map heading (filter (\<lambda>s. heading s \<noteq> None) (toSegments rnd ps d)) =
     map Some (boundary_headings d ps)"
proof (induction ps rule: rev_induct)
  case Nil
  show ?case by (simp add: toSegments_Nil)
next
  case (snoc p ps)
  show ?case
  proof (cases rule: toSegments_snoc_cases[of p d rnd ps])
    case (boundary l t)
    with snoc show ?thesis by (simp add: boundary_headings_append)
  next
    case first
    with snoc show ?thesis by (simp add: boundary_headings_append boundary_headings_other)
  next
    case append
    have "map heading (filter (\<lambda>s. heading s \<noteq> None) (toSegments rnd (ps @ [p]) d)) =
        map heading (filter (\<lambda>s. heading s \<noteq> None) (toSegments rnd ps d))"
      unfolding append(3) by (rule headed_butlast_last[OF append(2)])
    moreover have "boundary_headings d (ps @ [p]) = boundary_headings d ps"
      using append(1) by (simp add: boundary_headings_append boundary_headings_other)
    ultimately show ?thesis using snoc by (simp only:)
  qed
qed

text \<open>
  Claim C9 (no empty sections), as amended. No section of the result has zero parts; the
  parts of the sections, in order, are exactly the tokens; the sections with a heading are,
  in order, the boundary headings of the tokens, so none is dropped; and a boundary heading
  that is followed at once by another boundary heading gives a section whose only part is
  that heading.
\<close>

theorem no_empty_sections:
  "(\<forall>s\<in>set (toSegments rnd ps d). parts s \<noteq> [])
   \<and> concat (map parts (toSegments rnd ps d)) = ps
   \<and> map heading (filter (\<lambda>s. heading s \<noteq> None) (toSegments rnd ps d)) =
       map Some (boundary_headings d ps)
   \<and> (l \<le> d \<and> l' \<le> d \<longrightarrow>
       toSegments rnd (ps @ [Heading l t, Heading l' t']) d =
         toSegments rnd ps d @
           [\<lparr>seg_id = (length (toSegments rnd ps d), rnd (length (toSegments rnd ps d))),
             heading = Some (l, t), parts = [Heading l t]\<rparr>,
            \<lparr>seg_id = (Suc (length (toSegments rnd ps d)), rnd (Suc (length (toSegments rnd ps d)))),
             heading = Some (l', t'), parts = [Heading l' t']\<rparr>])"
proof (intro conjI impI ballI)
  assume a: "l \<le> d \<and> l' \<le> d"
  have "toSegments rnd ((ps @ [Heading l t]) @ [Heading l' t']) d =
      toSegments rnd (ps @ [Heading l t]) d @
        [\<lparr>seg_id = (length (toSegments rnd (ps @ [Heading l t]) d),
                    rnd (length (toSegments rnd (ps @ [Heading l t]) d))),
          heading = Some (l', t'), parts = [Heading l' t']\<rparr>]"
    using a by (intro toSegments_boundary) simp
  then show "toSegments rnd (ps @ [Heading l t, Heading l' t']) d =
         toSegments rnd ps d @
           [\<lparr>seg_id = (length (toSegments rnd ps d), rnd (length (toSegments rnd ps d))),
             heading = Some (l, t), parts = [Heading l t]\<rparr>,
            \<lparr>seg_id = (Suc (length (toSegments rnd ps d)), rnd (Suc (length (toSegments rnd ps d)))),
             heading = Some (l', t'), parts = [Heading l' t']\<rparr>]"
    using a by (simp add: toSegments_boundary)
qed (simp_all only: toSegments_parts_nonempty concat_parts_toSegments headings_toSegments
       not_False_eq_True)

text \<open>
  Claim C9 as stated says that a boundary heading followed at once by another boundary
  heading gives an empty section, which is dropped. The section holds its heading token and
  stays in the result.
\<close>

theorem heading_only_section_kept:
  "toSegments rnd0 [Heading 1 (js ''A''), Heading 1 (js ''B'')] 1 =
     [\<lparr>seg_id = (0, rnd0 0), heading = Some (1, js ''A''), parts = [Heading 1 (js ''A'')]\<rparr>,
      \<lparr>seg_id = (1, rnd0 1), heading = Some (1, js ''B''), parts = [Heading 1 (js ''B'')]\<rparr>]"
  by (simp add: seg_defs)

theorem no_empty_sections_witness:
  "list_all (\<lambda>s. parts s \<noteq> []) (toSegments rnd0 [Text (js ''p''), Heading 1 (js ''A'')] 1)
   \<and> (1::nat) \<le> 1
   \<and> toSegments rnd0 ([Text (js ''p''), Heading 1 (js ''A'')] @ [Heading 1 (js ''B''), Heading 1 (js ''C'')]) 1 =
       [\<lparr>seg_id = (0, rnd0 0), heading = None, parts = [Text (js ''p'')]\<rparr>,
        \<lparr>seg_id = (1, rnd0 1), heading = Some (1, js ''A''), parts = [Heading 1 (js ''A'')]\<rparr>,
        \<lparr>seg_id = (2, rnd0 2), heading = Some (1, js ''B''), parts = [Heading 1 (js ''B'')]\<rparr>,
        \<lparr>seg_id = (3, rnd0 3), heading = Some (1, js ''C''), parts = [Heading 1 (js ''C'')]\<rparr>]"
  using no_empty_sections [of rnd0 "[Text (js ''p''), Heading 1 (js ''A'')]" 1 1 1 "js ''B''" "js ''C''"]
  by (simp add: seg_defs rnd0_def)

lemma heading_inv_butlast_last:
  assumes "S \<noteq> []"
    and "\<forall>s\<in>set S. (case heading s of Some (l, t) \<Rightarrow> parts s \<noteq> [] \<and> hd (parts s) = Heading l t
                     | None \<Rightarrow> \<forall>q\<in>set (parts s). \<not> is_boundary d q)"
    and "\<not> is_boundary d p"
  shows "\<forall>s\<in>set (butlast S @ [(last S)\<lparr>parts := parts (last S) @ [p]\<rparr>]).
           (case heading s of Some (l, t) \<Rightarrow> parts s \<noteq> [] \<and> hd (parts s) = Heading l t
            | None \<Rightarrow> \<forall>q\<in>set (parts s). \<not> is_boundary d q)"
proof -
  from assms(1) obtain S' x where S: "S = S' @ [x]" by (cases S rule: rev_cases) auto
  show ?thesis using assms(2,3) unfolding S
    by (auto split: option.splits)
qed

text \<open>
  Claim C10 (the heading is stored in both places). In every section of the result that has
  a heading, the first part is the heading token with the same level and text; a section
  without heading holds no heading token whose level is at most the depth.
\<close>

theorem heading_in_both_places:
  "\<forall>s\<in>set (toSegments rnd ps d).
     (case heading s of
        Some (l, t) \<Rightarrow> parts s \<noteq> [] \<and> hd (parts s) = Heading l t
      | None \<Rightarrow> \<forall>q\<in>set (parts s). \<not> is_boundary d q)"
proof (induction ps rule: rev_induct)
  case Nil
  show ?case by (simp add: toSegments_Nil)
next
  case (snoc p ps)
  show ?case
  proof (cases rule: toSegments_snoc_cases[of p d rnd ps])
    case (boundary l t)
    with snoc show ?thesis by simp
  next
    case first
    with snoc show ?thesis by simp
  next
    case append
    show ?thesis
      unfolding append(3)
      by (rule heading_inv_butlast_last[OF append(2) snoc append(1)])
  qed
qed

theorem heading_in_both_places_witness:
  "list_all (\<lambda>s. case heading s of
        Some (l, t) \<Rightarrow> parts s \<noteq> [] \<and> hd (parts s) = Heading l t
      | None \<Rightarrow> list_all (\<lambda>q. \<not> is_boundary 1 q) (parts s))
     (toSegments rnd0 [Text (js ''p''), Heading 2 (js ''b''), Heading 1 (js ''A''), Text (js ''x'')] 1)
   \<and> map heading (toSegments rnd0
        [Text (js ''p''), Heading 2 (js ''b''), Heading 1 (js ''A''), Text (js ''x'')] 1) =
       [None, Some (1, js ''A'')]"
  using heading_in_both_places [of rnd0 "[Text (js ''p''), Heading 2 (js ''b''), Heading 1 (js ''A''), Text (js ''x'')]" 1]
  by (simp add: seg_defs)

section \<open>The copy protocol\<close>

lemma fst_copyWithExecCommand:
  "fst (copyWithExecCommand p s w) =
     (\<not> createElement_throws p \<and> \<not> appendChild_throws p \<and> \<not> select_throws p \<and>
      \<not> removeChild_throws p \<and> execCommand p = ExecReturns True)"
  by (auto simp: copyWithExecCommand_def Let_def split: exec_behaviour.splits)

lemma calls_copyWithExecCommand:
  "calls (snd (copyWithExecCommand p s w)) = calls w @ [LegacyCopy s]"
  by (auto simp: copyWithExecCommand_def Let_def split: exec_behaviour.splits)

lemma smartCopy_unfold:
  "smartCopy p s w =
     (let native = clipboard_present p \<and> secure_context p;
          w1 = (if native then w\<lparr>calls := calls w @ [WriteText s]\<rparr> else w);
          r = copyWithExecCommand p s w1 in
      if native \<and> writeText_resolves p then (ClipboardApi, w1)
      else if fst r then (LegacyExec, snd r)
      else (ManualRequired, (snd r)\<lparr>calls := calls (snd r) @ [RequestManual s]\<rparr>))"
  by (simp add: smartCopy_def Let_def split: prod.splits bool.splits)

lemma calls_smartCopy:
  "calls (snd (smartCopy p s w)) =
     calls w
     @ (if clipboard_present p \<and> secure_context p then [WriteText s] else [])
     @ (if clipboard_present p \<and> secure_context p \<and> writeText_resolves p then []
        else LegacyCopy s #
          (if fst (copyWithExecCommand p s w0) then [] else [RequestManual s]))"
  by (simp add: smartCopy_unfold Let_def calls_copyWithExecCommand fst_copyWithExecCommand)

lemma fst_smartCopy:
  "fst (smartCopy p s w) =
     (if clipboard_present p \<and> secure_context p \<and> writeText_resolves p then ClipboardApi
      else if fst (copyWithExecCommand p s w0) then LegacyExec else ManualRequired)"
  by (simp add: smartCopy_unfold Let_def fst_copyWithExecCommand)

text \<open>
  Claim C3 (cleanup of the legacy tier on every exit path). The text area is removed on the
  paths that reach \<^verbatim>\<open>removeChild\<close>. When \<^verbatim>\<open>select\<close> or \<^verbatim>\<open>execCommand\<close> throws after the element
  was appended, \<open>copyWithExecCommand\<close> returns \<^verbatim>\<open>false\<close> from its \<^verbatim>\<open>catch\<close> block and
  \<open>copyText\<close> rejects, and in both the element is still a child of the document body when
  control is back at the caller.
\<close>

theorem legacy_element_left_on_throw:
  assumes "\<not> createElement_throws p" and "\<not> appendChild_throws p"
    and "select_throws p \<or> execCommand p = ExecThrows"
  shows "fst (copyWithExecCommand p s w) = False
    \<and> children (snd (copyWithExecCommand p s w)) = children w @ [(fresh w, s)]
    \<and> (\<not> (clipboard_present p \<and> writeText_resolves p) \<longrightarrow>
         fst (copyText p s w) = None
         \<and> children (snd (copyText p s w)) = children w @ [(fresh w, s)])"
  using assms by (auto simp: copyWithExecCommand_def copyText_def Let_def)

theorem legacy_element_left_on_throw_witness:
  "\<not> createElement_throws platform_exec_throws \<and> \<not> appendChild_throws platform_exec_throws
   \<and> execCommand platform_exec_throws = ExecThrows
   \<and> \<not> (clipboard_present platform_exec_throws \<and> writeText_resolves platform_exec_throws)
   \<and> fst (copyWithExecCommand platform_exec_throws (js ''x'') world0) = False
   \<and> children (snd (copyWithExecCommand platform_exec_throws (js ''x'') world0)) = [(0, js ''x'')]
   \<and> fst (copyText platform_exec_throws (js ''x'') world0) = None
   \<and> children (snd (copyText platform_exec_throws (js ''x'') world0)) = [(0, js ''x'')]"
  using legacy_element_left_on_throw [of platform_exec_throws "js ''x''" world0]
  by (simp add: platform_exec_throws_def world0_def)

text \<open>
  Claim C4 (order of the copy tiers, one manual escalation). The tiers one call of
  \<open>smartCopy\<close> attempts are appended to the log, each at most once. When the native write
  does not succeed, the legacy tier is attempted and the manual callback is not called
  before it. When the legacy tier fails as well, the callback is called exactly once and the
  outcome is \<open>ManualRequired\<close>.
\<close>

theorem copy_tier_order:
  "\<exists>new. calls (snd (smartCopy p s w)) = calls w @ new
    \<and> distinct new
    \<and> set new \<subseteq> {WriteText s, LegacyCopy s, RequestManual s}
    \<and> (\<not> (clipboard_present p \<and> secure_context p \<and> writeText_resolves p) \<longrightarrow>
         LegacyCopy s \<in> set new
         \<and> RequestManual s \<notin> set (takeWhile (\<lambda>c. c \<noteq> LegacyCopy s) new))
    \<and> (\<not> (clipboard_present p \<and> secure_context p \<and> writeText_resolves p)
         \<and> \<not> fst (copyWithExecCommand p s w0) \<longrightarrow>
         count_list new (RequestManual s) = 1
         \<and> fst (smartCopy p s w) = ManualRequired)"
  apply (rule exI[where x = "(if clipboard_present p \<and> secure_context p then [WriteText s] else [])
     @ (if clipboard_present p \<and> secure_context p \<and> writeText_resolves p then []
        else LegacyCopy s #
          (if fst (copyWithExecCommand p s w0) then [] else [RequestManual s]))"])
  apply (simp only: calls_smartCopy[of p s w w0] fst_smartCopy[of p s w w0])
  apply auto
  done

theorem copy_tier_order_witness:
  "\<not> (clipboard_present platform_exec_denied \<and> secure_context platform_exec_denied
       \<and> writeText_resolves platform_exec_denied)
   \<and> \<not> fst (copyWithExecCommand platform_exec_denied (js ''x'') world0)
   \<and> calls (snd (smartCopy platform_exec_denied (js ''x'') world0)) =
       [WriteText (js ''x''), LegacyCopy (js ''x''), RequestManual (js ''x'')]
   \<and> fst (smartCopy platform_exec_denied (js ''x'') world0) = ManualRequired"
  using copy_tier_order [of platform_exec_denied "js ''x''" world0 world0]
  by (simp add: platform_exec_denied_def world0_def smartCopy_def copyWithExecCommand_def)

end
